theory Spec2Isabelle
  imports Complex_Main "HOL-Library.Word" "HOL-Library.Multiset" "HOL-Library.Code_Target_Nat"
begin

section \<open>Data model of rt_scheduler.c\<close>

text \<open>
  The constants of the file: thread classes, descriptor states and queue kinds are
  preprocessor constants in the source; each group is a datatype here, in the order of
  the numbers the source gives them.
\<close>

datatype rt_type = APERIODIC | SPORADIC | PERIODIC

datatype rt_status = ARRIVED | ADMITTED | WAITING | RUNNING | TOBE_REMOVED | REMOVED | SLEEPING

datatype queue_type = RUNNABLE_QUEUE | PENDING_QUEUE | APERIODIC_QUEUE | ARRIVAL_QUEUE
  | WAITING_QUEUE | SLEEPING_QUEUE | EXITED_QUEUE

definition MAX_QUEUE :: nat where
  "MAX_QUEUE = 256"

definition QUANTUM :: "64 word" where
  "QUANTUM = 10000000"

definition PERIODIC_UTIL :: "64 word" where
  "PERIODIC_UTIL = 65000"

definition SPORADIC_UTIL :: "64 word" where
  "SPORADIC_UTIL = 18000"

type_synonym u64 = "64 word"

text \<open>
  Modelled from the spec: the declaration of \<open>rt_constraints\<close> is in rt_scheduler.h, which
  is not among the sources. The source reads \<open>constraints->periodic.period\<close>,
  \<open>constraints->periodic.slice\<close>, \<open>constraints->sporadic.work\<close> and
  \<open>constraints->aperiodic.priority\<close>; the spec lists the same four values
  (Periodic period and slice, Sporadic work, Aperiodic priority). The model keeps one
  field for each of them and stores the constraints inside the descriptor that points to
  them. The source reads the periodic fields only of descriptors of class PERIODIC and
  the work only of descriptors of class SPORADIC, and it writes the priority only of a
  descriptor of class APERIODIC, so the fields of one descriptor do not interfere
  whether the header lays them out side by side or on top of each other.
\<close>

record rt_constraints =
  period :: u64
  slice :: u64
  work :: u64
  priority :: u64

text \<open>
  Modelled from the spec: \<open>rt_thread\<close>, \<open>rt_queue\<close> and \<open>rt_scheduler\<close> are declared in
  the same missing header. Their fields are the ones rt_scheduler.c reads and writes
  (and the ones of \<open>rt_thread_sim\<close> and \<open>rt_queue_sim\<close>, which the file declares itself).
  \<open>nk_thread\<close> is the field \<open>thread\<close>, the back-reference to the nk_thread of the
  descriptor.
\<close>

record rt_thread =
  rtype :: rt_type
  q_type :: queue_type
  status :: rt_status
  constraints :: rt_constraints
  start_time :: u64
  run_time :: u64
  deadline :: u64
  exit_time :: u64
  nk_thread :: nat

text \<open>
  A descriptor pointer is an address; \<open>NULL\<close> is address 0. The descriptors live in a
  store from addresses to descriptors, so that a descriptor held by a queue and changed
  through another pointer is changed in the queue as well.
\<close>

type_synonym rt_thread_ptr = nat

definition NULL :: rt_thread_ptr where
  "NULL = 0"

type_synonym store = "rt_thread_ptr \<Rightarrow> rt_thread"

text \<open>
  A queue: \<open>size\<close>, \<open>head\<close> and \<open>tail\<close> are uint64_t in the source and natural numbers
  here, with the wrap-around at \<open>2 ^ 64\<close> written out wherever the source increments or
  decrements them. The flexible array \<open>threads[]\<close> is a function from the index to the
  pointer stored there. The \<open>type\<close> field of a queue is written once, by
  rt_scheduler_init, and only read afterwards: the model passes it to the queue
  operations as an argument next to the queue.
\<close>

record rt_queue =
  qsize :: nat
  head :: nat
  tail :: nat
  threads :: "nat \<Rightarrow> rt_thread_ptr"

text \<open>
  The scheduler of the CPU together with what the dispatcher touches outside it: the
  store of descriptors, the value last written to the one-shot timer
  (\<open>apic_oneshot_write\<close>), the cycle counter, and the descriptor of the current thread
  (\<open>get_cur_thread()->rt_thread\<close>). The cycle counter is a sequence of readings
  \<open>rdtsc\<close> and the number \<open>reads\<close> of readings taken so far.
\<close>

record sys_state =
  runnable :: rt_queue
  pending :: rt_queue
  aperiodic :: rt_queue
  arrival :: rt_queue
  waiting :: rt_queue
  sleeping :: rt_queue
  exited :: rt_queue
  sched_run_time :: u64
  tsc_start_time :: u64
  tsc_set_time :: u64
  tsc_end_time :: u64
  heap :: store
  apic_timer :: u64
  rdtsc :: "nat \<Rightarrow> u64"
  reads :: nat
  cur_thread :: rt_thread_ptr

datatype error = Panic | NullDeref | DivByZero

section \<open>Helpers of the source\<close>

definition parent :: "nat \<Rightarrow> nat" where
  "parent i = (if i \<noteq> 0 then (i - 1) div 2 else 0)"

definition left_child :: "nat \<Rightarrow> nat" where
  "left_child i = 2 * i + 1"

definition right_child :: "nat \<Rightarrow> nat" where
  "right_child i = 2 * i + 2"

definition umin :: "u64 \<Rightarrow> u64 \<Rightarrow> u64" where
  "umin x y = (if x < y then x else y)"

definition cur_time :: "sys_state \<Rightarrow> u64 \<times> sys_state" where
  "cur_time s = (rdtsc s (reads s), s\<lparr>reads := Suc (reads s)\<rparr>)"

section \<open>Queue operations\<close>

text \<open>
  The sift-up loop of \<open>enqueue_thread\<close> on a heap queue. The three heap branches of the
  source differ only in the key they compare (\<open>deadline\<close> for runnable and pending,
  \<open>constraints->aperiodic.priority\<close> for aperiodic), so the loop takes the key as an
  argument. It returns the array and the position where the loop stopped.
\<close>

definition aperiodic_priority :: "rt_thread \<Rightarrow> u64" where
  "aperiodic_priority t = priority (constraints t)"

function sift_up :: "(rt_thread \<Rightarrow> u64) \<Rightarrow> store \<Rightarrow> rt_thread_ptr \<Rightarrow> (nat \<Rightarrow> rt_thread_ptr) \<Rightarrow> nat
    \<Rightarrow> (nat \<Rightarrow> rt_thread_ptr) \<times> nat" where
  "sift_up key h thread ts pos =
    (if key (h (ts (parent pos))) > key (h thread) \<and> pos \<noteq> parent pos
     then sift_up key h thread (ts(pos := ts (parent pos))) (parent pos)
     else (ts, pos))"
  by pat_completeness auto
termination
  by (relation "measure (\<lambda>(key, h, thread, ts, pos). pos)")
     (auto simp: parent_def split: if_splits)

declare sift_up.simps [simp del]

definition enqueue_heap :: "(rt_thread \<Rightarrow> u64) \<Rightarrow> queue_type \<Rightarrow> rt_queue \<Rightarrow> rt_thread_ptr \<Rightarrow> store
    \<Rightarrow> rt_queue \<times> store" where
  "enqueue_heap key ty q thread h =
    (if qsize q = MAX_QUEUE then (q, h)
     else
       (let pos = qsize q;
            r = sift_up key h thread ((threads q)(pos := thread)) pos
        in (q\<lparr>qsize := (qsize q + 1) mod 2 ^ 64, threads := (fst r)(snd r := thread)\<rparr>,
            h(thread := (h thread)\<lparr>q_type := ty\<rparr>))))"

text \<open>
  The four ring branches of \<open>enqueue_thread\<close>. Arrival, waiting and sleeping also set
  the status of the descriptor; exited does not.
\<close>

definition enqueue_ring :: "queue_type \<Rightarrow> rt_status option \<Rightarrow> rt_queue \<Rightarrow> rt_thread_ptr \<Rightarrow> store
    \<Rightarrow> rt_queue \<times> store" where
  "enqueue_ring ty st q thread h =
    (if qsize q = MAX_QUEUE then (q, h)
     else
       (let pos = tail q;
            tail1 = (tail q + 1) mod 2 ^ 64;
            tail2 = (if tail1 = MAX_QUEUE then 0 else tail1);
            t1 = (h thread)\<lparr>q_type := ty\<rparr>;
            t2 = (case st of None \<Rightarrow> t1 | Some v \<Rightarrow> t1\<lparr>status := v\<rparr>)
        in (q\<lparr>qsize := (qsize q + 1) mod 2 ^ 64, tail := tail2,
              threads := (threads q)(pos := thread)\<rparr>,
            h(thread := t2))))"

definition enqueue_thread :: "queue_type \<Rightarrow> rt_queue \<Rightarrow> rt_thread_ptr \<Rightarrow> store \<Rightarrow> rt_queue \<times> store" where
  "enqueue_thread ty q thread h =
    (case ty of
       RUNNABLE_QUEUE \<Rightarrow> enqueue_heap deadline RUNNABLE_QUEUE q thread h
     | PENDING_QUEUE \<Rightarrow> enqueue_heap deadline PENDING_QUEUE q thread h
     | APERIODIC_QUEUE \<Rightarrow> enqueue_heap aperiodic_priority APERIODIC_QUEUE q thread h
     | ARRIVAL_QUEUE \<Rightarrow> enqueue_ring ARRIVAL_QUEUE (Some ARRIVED) q thread h
     | WAITING_QUEUE \<Rightarrow> enqueue_ring WAITING_QUEUE (Some WAITING) q thread h
     | SLEEPING_QUEUE \<Rightarrow> enqueue_ring SLEEPING_QUEUE (Some SLEEPING) q thread h
     | EXITED_QUEUE \<Rightarrow> enqueue_ring EXITED_QUEUE None q thread h)"

text \<open>
  The sift-down loop shared by \<open>dequeue_thread\<close> and \<open>remove_thread\<close> on a heap queue:
  \<open>n\<close> is the size after the decrement, \<open>last_t\<close> (\<open>last\<close> in the source) the element
  taken from the end, \<open>now\<close> the hole. The source tests \<open>child < queue->size\<close> with
  \<open>child\<close> the left child before it reads the right child, and the model does the same.
  It returns the array and the final hole.
\<close>

function sift_down :: "(rt_thread \<Rightarrow> u64) \<Rightarrow> store \<Rightarrow> rt_thread_ptr \<Rightarrow> (nat \<Rightarrow> rt_thread_ptr) \<Rightarrow> nat
    \<Rightarrow> nat \<Rightarrow> (nat \<Rightarrow> rt_thread_ptr) \<times> nat" where
  "sift_down key h last_t ts n now =
    (if left_child now < n then
       (let child =
              (if left_child now < n \<and>
                  key (h (ts (right_child now))) < key (h (ts (left_child now)))
               then right_child now else left_child now)
        in if key (h last_t) > key (h (ts child))
           then sift_down key h last_t (ts(now := ts child)) n child
           else (ts, now))
     else (ts, now))"
  by pat_completeness auto
termination
  by (relation "measure (\<lambda>(key, h, last_t, ts, n, now). Suc n - now)")
     (auto simp: left_child_def right_child_def split: if_splits)

declare sift_down.simps [simp del]

text \<open>
  The removal of the element at index \<open>i\<close> of a heap queue, as \<open>dequeue_thread\<close> does it
  for the root and \<open>remove_thread\<close> for the index it has found: take the last element
  with \<open>--queue->size\<close>, sift down from \<open>i\<close>, and store the last element in the final
  hole. Both callers return before this when the size is below 1, so the decrement does
  not wrap around.
\<close>

definition extract_at :: "(rt_thread \<Rightarrow> u64) \<Rightarrow> store \<Rightarrow> rt_queue \<Rightarrow> nat \<Rightarrow> rt_queue" where
  "extract_at key h q i =
    (let n = qsize q - 1;
         last_t = threads q n;
         r = sift_down key h last_t (threads q) n i
     in q\<lparr>qsize := n, threads := (fst r)(snd r := last_t)\<rparr>)"

lemma qsize_extract_at [simp]: "qsize (extract_at key h q i) = qsize q - 1"
  by (simp add: extract_at_def Let_def)

text \<open>
  A heap branch of \<open>dequeue_thread\<close>. The statement \<open>min->status == REMOVED;\<close> of the
  source is a comparison whose result is dropped: it writes nothing, so the store is
  not changed and is not returned.
\<close>

function dequeue_heap :: "(rt_thread \<Rightarrow> u64) \<Rightarrow> rt_queue \<Rightarrow> store \<Rightarrow> rt_queue \<times> rt_thread_ptr option" where
  "dequeue_heap key q h =
    (if qsize q < 1 then (q, None)
     else
       (let min_t = threads q 0;
            q' = extract_at key h q 0
        in if status (h min_t) = TOBE_REMOVED then dequeue_heap key q' h
           else (q', Some min_t)))"
  by pat_completeness auto
termination
  by (relation "measure (\<lambda>(key, q, h). qsize q)") auto

declare dequeue_heap.simps [simp del]

text \<open>
  The ring branch of \<open>dequeue_thread\<close>. Its condition in the source reads
  \<open>queue->type == ARRIVAL_QUEUE || queue->type = WAITING_QUEUE || ...\<close>, the second
  comparison written with a single \<open>=\<close>; the model takes the branch for the four ring
  kinds. With a \<open>tail\<close> that \<open>head\<close> never reaches and
  every slot holding a descriptor to be removed, the recursion does not end, so the
  result is an option and \<open>None\<close> stands for not returning.
\<close>

partial_function (option) dequeue_ring :: "store \<Rightarrow> rt_queue \<Rightarrow> (rt_queue \<times> rt_thread_ptr option) option" where
  "dequeue_ring h q =
    (if head q = tail q then Some (q, None)
     else if status (h (threads q (head q))) = TOBE_REMOVED
     then dequeue_ring h
            (q\<lparr>head := (if (head q + 1) mod 2 ^ 64 = MAX_QUEUE then 0 else (head q + 1) mod 2 ^ 64),
               qsize := (qsize q + (2 ^ 64 - 1)) mod 2 ^ 64\<rparr>)
     else Some
            (q\<lparr>head := (if (head q + 1) mod 2 ^ 64 = MAX_QUEUE then 0 else (head q + 1) mod 2 ^ 64),
               qsize := (qsize q + (2 ^ 64 - 1)) mod 2 ^ 64\<rparr>,
             Some (threads q (head q))))"

declare dequeue_ring.simps [code]

definition dequeue_thread :: "queue_type \<Rightarrow> rt_queue \<Rightarrow> store \<Rightarrow> (rt_queue \<times> rt_thread_ptr option) option" where
  "dequeue_thread ty q h =
    (case ty of
       RUNNABLE_QUEUE \<Rightarrow> Some (dequeue_heap deadline q h)
     | PENDING_QUEUE \<Rightarrow> Some (dequeue_heap deadline q h)
     | APERIODIC_QUEUE \<Rightarrow> Some (dequeue_heap aperiodic_priority q h)
     | _ \<Rightarrow> dequeue_ring h q)"

text \<open>
  \<open>remove_thread\<close>. The scan of a heap branch tests \<open>thread = queue->threads[i]\<close>: it
  stores the slot in \<open>thread\<close> and stops at the first slot that is not null. The scan
  returns the index where it stopped (the size when it did not) and the value left in
  \<open>thread\<close>.
\<close>

function remove_scan :: "(nat \<Rightarrow> rt_thread_ptr) \<Rightarrow> nat \<Rightarrow> nat \<Rightarrow> rt_thread_ptr \<Rightarrow> nat \<times> rt_thread_ptr" where
  "remove_scan ts n i thread =
    (if i < n then (if ts i \<noteq> NULL then (i, ts i) else remove_scan ts n (i + 1) (ts i))
     else (n, thread))"
  by pat_completeness auto
termination
  by (relation "measure (\<lambda>(ts, n, i, thread). n - i)") auto

declare remove_scan.simps [simp del]

definition remove_heap :: "(rt_thread \<Rightarrow> u64) \<Rightarrow> rt_queue \<Rightarrow> rt_thread_ptr \<Rightarrow> store
    \<Rightarrow> rt_queue \<times> rt_thread_ptr option" where
  "remove_heap key q thread h =
    (if qsize q < 1 then (q, None)
     else
       (let sc = remove_scan (threads q) (qsize q) 0 thread;
            target_index = fst sc
        in if target_index = qsize q then (q, None)
           else
             (extract_at key h q target_index, Some (snd sc))))"

text \<open>
  For a descriptor whose \<open>q_type\<close> names a ring queue, the source reaches
  \<open>queue->type == ARRIVAL_QUEUE\<close> with \<open>queue\<close> still null: the model returns the error
  \<open>NullDeref\<close> there. The queues of the scheduler always exist in the model, so the
  tests \<open>queue == NULL\<close> of the heap branches have no counterpart.
\<close>

definition remove_thread :: "rt_thread_ptr \<Rightarrow> sys_state \<Rightarrow> error + sys_state \<times> rt_thread_ptr option" where
  "remove_thread thread s =
    (let ty = q_type (heap s thread) in
     if ty = RUNNABLE_QUEUE then
       (let r = remove_heap deadline (runnable s) thread (heap s)
        in Inr (s\<lparr>runnable := fst r\<rparr>, snd r))
     else if ty = PENDING_QUEUE then
       (let r = remove_heap deadline (pending s) thread (heap s)
        in Inr (s\<lparr>pending := fst r\<rparr>, snd r))
     else if ty = APERIODIC_QUEUE then
       (let r = remove_heap aperiodic_priority (aperiodic s) thread (heap s)
        in Inr (s\<lparr>aperiodic := fst r\<rparr>, snd r))
     else Inl NullDeref)"

section \<open>Timer programming\<close>

text \<open>
  \<open>set_timer\<close>: \<open>current_thread\<close> is the thread chosen to run, \<open>None\<close> for a null
  pointer. The value passed to \<open>apic_oneshot_write\<close> is kept in \<open>apic_timer\<close>.
\<close>

definition set_timer :: "rt_thread_ptr option \<Rightarrow> u64 \<Rightarrow> u64 \<Rightarrow> sys_state \<Rightarrow> sys_state" where
  "set_timer current_thread end_time slack s0 =
    (let s1 = (snd (cur_time s0))\<lparr>tsc_start_time := fst (cur_time s0)\<rparr>;
         s2 =
          (case current_thread of
             None \<Rightarrow> s1\<lparr>apic_timer := QUANTUM, tsc_set_time := QUANTUM\<rparr>
           | Some ct \<Rightarrow>
              (let c = heap s1 ct; thread = heap s1 (threads (pending s1) 0) in
               if qsize (pending s1) > 0 then
                 (if rtype c = PERIODIC then
                    s1\<lparr>apic_timer := umin (deadline thread - end_time)
                                          ((slice (constraints c) - run_time c) + slack),
                       tsc_set_time := umin (deadline thread - end_time)
                                            (slice (constraints c) - run_time c)\<rparr>
                  else if rtype c = SPORADIC then
                    s1\<lparr>apic_timer := umin (deadline thread - end_time)
                                          ((work (constraints c) - run_time c) + slack),
                       tsc_set_time := umin (deadline thread - end_time)
                                            ((work (constraints c) - run_time c) + slack)\<rparr>
                  else
                    s1\<lparr>apic_timer := umin (deadline thread - end_time) QUANTUM,
                       tsc_set_time := umin (deadline thread - end_time) QUANTUM\<rparr>)
               else
                 (if rtype c = PERIODIC then
                    s1\<lparr>apic_timer := (slice (constraints c) - run_time c) + slack,
                       tsc_set_time := (slice (constraints c) - run_time c) + slack\<rparr>
                  else if rtype c = SPORADIC then
                    s1\<lparr>apic_timer := (work (constraints c) - run_time c) + slack,
                       tsc_set_time := (work (constraints c) - run_time c) + slack\<rparr>
                  else
                    s1\<lparr>apic_timer := QUANTUM, tsc_set_time := QUANTUM\<rparr>)))
     in s2\<lparr>tsc_end_time := end_time\<rparr>)"

text \<open>
  The remaining budget of the chosen thread as section 4.5 of the specification gives it:
  slice minus run time for a periodic thread, work minus run time for a sporadic one,
  the constant \<open>QUANTUM\<close> for an aperiodic one.
\<close>

definition budget_remaining :: "rt_thread \<Rightarrow> u64" where
  "budget_remaining c =
    (case rtype c of
       PERIODIC \<Rightarrow> slice (constraints c) - run_time c
     | SPORADIC \<Rightarrow> work (constraints c) - run_time c
     | APERIODIC \<Rightarrow> QUANTUM)"

section \<open>Dispatcher\<close>

text \<open>
  \<open>rt_thread_dump\<close> prints the fields of a descriptor. For a periodic descriptor one of
  the values it passes to \<open>printk\<close> is \<open>cur_time()\<close>, so the dump takes one reading of the
  cycle counter; for a sporadic descriptor it calls \<open>RT_SCHED_DEBUG\<close>, which expands to
  nothing when \<open>NAUT_CONFIG_DEBUG_RT_SCHEDULER\<close> is not set, and for an aperiodic one it
  does nothing.
\<close>

definition rt_thread_dump :: "rt_thread_ptr \<Rightarrow> sys_state \<Rightarrow> sys_state" where
  "rt_thread_dump thread s = (if rtype (heap s thread) = PERIODIC then snd (cur_time s) else s)"

text \<open>
  \<open>check_deadlines\<close> returns 1 when the deadline was missed (the exit time is after the
  deadline) and 0 when it was met. On a miss it prints two lines, whose arguments are
  fields of the descriptor, and calls \<open>rt_thread_dump\<close>; so the state it leaves differs
  from the one it found, by the reading of the counter that the dump takes.
\<close>

definition check_deadlines :: "rt_thread_ptr \<Rightarrow> sys_state \<Rightarrow> int \<times> sys_state" where
  "check_deadlines t s =
    (if exit_time (heap s t) > deadline (heap s t) then (1, rt_thread_dump t s) else (0, s))"

definition update_periodic :: "rt_thread_ptr \<Rightarrow> sys_state \<Rightarrow> sys_state" where
  "update_periodic t s =
    (if rtype (heap s t) = PERIODIC then
       (let s1 = snd (cur_time s);
            d = fst (cur_time s) + period (constraints (heap s1 t))
        in s1\<lparr>heap := (heap s1)(t := (heap s1 t)\<lparr>run_time := 0, deadline := d\<rparr>)\<rparr>)
     else s)"

text \<open>\<open>enqueue_thread\<close> applied to one of the queues of the scheduler.\<close>

definition enqueue_runnable :: "rt_thread_ptr \<Rightarrow> sys_state \<Rightarrow> sys_state" where
  "enqueue_runnable t s =
    (let r = enqueue_thread RUNNABLE_QUEUE (runnable s) t (heap s)
     in s\<lparr>runnable := fst r, heap := snd r\<rparr>)"

definition enqueue_pending :: "rt_thread_ptr \<Rightarrow> sys_state \<Rightarrow> sys_state" where
  "enqueue_pending t s =
    (let r = enqueue_thread PENDING_QUEUE (pending s) t (heap s)
     in s\<lparr>pending := fst r, heap := snd r\<rparr>)"

definition enqueue_aperiodic :: "rt_thread_ptr \<Rightarrow> sys_state \<Rightarrow> sys_state" where
  "enqueue_aperiodic t s =
    (let r = enqueue_thread APERIODIC_QUEUE (aperiodic s) t (heap s)
     in s\<lparr>aperiodic := fst r, heap := snd r\<rparr>)"

text \<open>
  The release loop at the head of \<open>rt_need_resched\<close>: while pending is not empty and
  the deadline of its root is before \<open>end_time\<close>, dequeue from pending, re-release and
  enqueue onto runnable. The result is an option because \<open>dequeue_thread\<close> is.
\<close>

function drain_pending :: "u64 \<Rightarrow> sys_state \<Rightarrow> sys_state option" where
  "drain_pending end_time s =
    (if qsize (pending s) > 0 then
       (if deadline (heap s (threads (pending s) 0)) < end_time then
          (case dequeue_thread PENDING_QUEUE (pending s) (heap s) of
             None \<Rightarrow> None
           | Some r \<Rightarrow>
               (case snd r of
                  None \<Rightarrow> drain_pending end_time (s\<lparr>pending := fst r\<rparr>)
                | Some arrived_thread \<Rightarrow>
                    drain_pending end_time
                      (enqueue_runnable arrived_thread
                        (update_periodic arrived_thread (s\<lparr>pending := fst r\<rparr>)))))
        else Some s)
     else Some s)"
  by pat_completeness auto

lemma qsize_dequeue_heap_le: "qsize (fst (dequeue_heap key q h)) \<le> qsize q"
proof (induction key q h rule: dequeue_heap.induct)
  case (1 key q h)
  show ?case
  proof (cases "qsize q < 1")
    case True
    then show ?thesis by (simp add: dequeue_heap.simps [of key q h])
  next
    case False
    show ?thesis
    proof (cases "status (h (threads q 0)) = TOBE_REMOVED")
      case True
      have "qsize (fst (dequeue_heap key (extract_at key h q 0) h)) \<le> qsize (extract_at key h q 0)"
        using "1.IH" [OF False refl refl True] .
      then show ?thesis
        using False True by (simp add: dequeue_heap.simps [of key q h])
    next
      case no: False
      then show ?thesis
        using False by (simp add: dequeue_heap.simps [of key q h])
    qed
  qed
qed

lemma qsize_dequeue_heap_less:
  "0 < qsize q \<Longrightarrow> qsize (fst (dequeue_heap key q h)) < qsize q"
  using qsize_dequeue_heap_le [of key "extract_at key h q 0" h]
  by (auto simp: dequeue_heap.simps [of key q h] Let_def)

lemma pending_update_periodic [simp]: "pending (update_periodic t s) = pending s"
  by (simp add: update_periodic_def cur_time_def Let_def)

lemma pending_enqueue_runnable [simp]: "pending (enqueue_runnable t s) = pending s"
  by (simp add: enqueue_runnable_def Let_def)

termination drain_pending
proof (relation "measure (\<lambda>(end_time, s). qsize (pending s))", goal_cases)
  case 1
  show ?case by simp
next
  case (2 end_time s r)
  then show ?case
    using qsize_dequeue_heap_less [of "pending s" deadline "heap s"]
    by (auto simp: dequeue_thread_def)
next
  case (3 end_time s r arrived_thread)
  then show ?case
    using qsize_dequeue_heap_less [of "pending s" deadline "heap s"]
    by (auto simp: dequeue_thread_def)
qed

declare drain_pending.simps [simp del]

text \<open>
  The selection that ends the aperiodic branch and the two budget-exhausted branches of
  \<open>rt_need_resched\<close>: dequeue from runnable when it is not empty; when that gives no
  thread, dequeue from aperiodic; panic when that gives none either. The dispatcher
  returns \<open>rt_n->thread\<close>; the model returns the chosen descriptor \<open>rt_n\<close>, whose field
  \<open>nk_thread\<close> is that handle.
\<close>

definition pick_next :: "u64 \<Rightarrow> u64 \<Rightarrow> sys_state \<Rightarrow> (error + sys_state \<times> rt_thread_ptr) option" where
  "pick_next end_time slack s =
    (case (if qsize (runnable s) > 0 then dequeue_thread RUNNABLE_QUEUE (runnable s) (heap s)
           else Some (runnable s, None)) of
       None \<Rightarrow> None
     | Some r \<Rightarrow>
         (case snd r of
            Some rt_n \<Rightarrow>
              Some (Inr (set_timer (Some rt_n) end_time slack (s\<lparr>runnable := fst r\<rparr>), rt_n))
          | None \<Rightarrow>
              (case dequeue_thread APERIODIC_QUEUE (aperiodic s) (heap s) of
                 None \<Rightarrow> None
               | Some a \<Rightarrow>
                   (case snd a of
                      None \<Rightarrow> Some (Inl Panic)
                    | Some rt_n \<Rightarrow>
                        Some (Inr (set_timer (Some rt_n) end_time slack
                                     (s\<lparr>runnable := fst r, aperiodic := fst a\<rparr>), rt_n))))))"

text \<open>
  The branch of a sporadic or periodic current thread whose budget is not used up:
  when runnable is not empty and the deadline of the current thread is greater than the
  deadline of the root of runnable, dequeue from runnable and, if that gives a thread,
  put the current thread onto runnable and return the dequeued one; in every other
  case keep the current thread.
\<close>

definition preempt_or_keep :: "u64 \<Rightarrow> u64 \<Rightarrow> rt_thread_ptr \<Rightarrow> sys_state
    \<Rightarrow> (error + sys_state \<times> rt_thread_ptr) option" where
  "preempt_or_keep end_time slack rt_c s =
    (if qsize (runnable s) > 0 \<and>
        deadline (heap s rt_c) > deadline (heap s (threads (runnable s) 0))
     then
       (case dequeue_thread RUNNABLE_QUEUE (runnable s) (heap s) of
          None \<Rightarrow> None
        | Some r \<Rightarrow>
            (case snd r of
               Some rt_n \<Rightarrow>
                 Some (Inr (set_timer (Some rt_n) end_time slack
                              (enqueue_runnable rt_c (s\<lparr>runnable := fst r\<rparr>)), rt_n))
             | None \<Rightarrow>
                 Some (Inr (set_timer (Some rt_c) end_time slack (s\<lparr>runnable := fst r\<rparr>), rt_c))))
     else Some (Inr (set_timer (Some rt_c) end_time slack s, rt_c)))"

text \<open>
  What the dispatcher does with a periodic current thread whose slice is used up, before
  it selects the next thread.
\<close>

definition periodic_requeue :: "rt_thread_ptr \<Rightarrow> sys_state \<Rightarrow> sys_state" where
  "periodic_requeue rt_c s =
    (let r = check_deadlines rt_c s
     in if fst r \<noteq> 0 then enqueue_runnable rt_c (update_periodic rt_c (snd r))
        else enqueue_pending rt_c (snd r))"

text \<open>
  The entry of \<open>rt_need_resched\<close>: \<open>end_time\<close> is \<open>scheduler->run_time + cur_time()\<close>, and a
  second reading of the counter goes to \<open>scheduler->tsc->end_time\<close>. Then come the
  release loop and the switch on the class of the current thread. In the branch of a
  sporadic thread that has done its work the source calls \<open>check_deadlines\<close> and drops
  the value it returns. The \<open>default\<close> branch of the switch has no counterpart, since \<open>rt_type\<close>
  has the three classes only.
\<close>

definition resched_end_time :: "sys_state \<Rightarrow> u64" where
  "resched_end_time s0 = sched_run_time s0 + fst (cur_time s0)"

definition resched_entry :: "sys_state \<Rightarrow> sys_state" where
  "resched_entry s0 =
    (let s1 = snd (cur_time s0) in (snd (cur_time s1))\<lparr>tsc_end_time := fst (cur_time s1)\<rparr>)"

definition rt_need_resched :: "sys_state \<Rightarrow> (error + sys_state \<times> rt_thread_ptr) option" where
  "rt_need_resched s0 =
    (let rt_c = cur_thread s0;
         end_time = resched_end_time s0;
         slack = 0
     in case drain_pending end_time (resched_entry s0) of
          None \<Rightarrow> None
        | Some s \<Rightarrow>
            (case rtype (heap s rt_c) of
               APERIODIC \<Rightarrow>
                 pick_next end_time slack
                   (enqueue_aperiodic rt_c
                     (s\<lparr>heap := (heap s)(rt_c := (heap s rt_c)
                          \<lparr>constraints := (constraints (heap s rt_c))
                             \<lparr>priority := run_time (heap s rt_c)\<rparr>\<rparr>)\<rparr>))
             | SPORADIC \<Rightarrow>
                 if run_time (heap s rt_c) \<ge> work (constraints (heap s rt_c))
                 then pick_next end_time slack (snd (check_deadlines rt_c s))
                 else preempt_or_keep end_time slack rt_c s
             | PERIODIC \<Rightarrow>
                 if run_time (heap s rt_c) \<ge> slice (constraints (heap s rt_c))
                 then pick_next end_time slack (periodic_requeue rt_c s)
                 else preempt_or_keep end_time slack rt_c s))"

section \<open>Admission control\<close>

text \<open>
  One loop of \<open>get_per_util\<close> over the first \<open>n\<close> slots of a queue, starting at index \<open>i\<close>
  with the sum \<open>util\<close>. Dividing by a period of 0 is the error \<open>DivByZero\<close>.
\<close>

function per_util_loop :: "store \<Rightarrow> (nat \<Rightarrow> rt_thread_ptr) \<Rightarrow> nat \<Rightarrow> nat \<Rightarrow> u64 \<Rightarrow> error + u64" where
  "per_util_loop h ts n i util =
    (if i < n then
       (if rtype (h (ts i)) = PERIODIC then
          (if period (constraints (h (ts i))) = 0 then Inl DivByZero
           else per_util_loop h ts n (i + 1)
                  (util + (slice (constraints (h (ts i))) * 100000) div
                            period (constraints (h (ts i)))))
        else per_util_loop h ts n (i + 1) util)
     else Inr util)"
  by pat_completeness auto
termination
  by (relation "measure (\<lambda>(h, ts, n, i, util). n - i)") auto

declare per_util_loop.simps [simp del]

definition get_per_util :: "rt_queue \<Rightarrow> rt_queue \<Rightarrow> store \<Rightarrow> error + u64" where
  "get_per_util rq pq h =
    (case per_util_loop h (threads rq) (qsize rq) 0 0 of
       Inl e \<Rightarrow> Inl e
     | Inr util \<Rightarrow> per_util_loop h (threads pq) (qsize pq) 0 util)"

text \<open>
  The loop of \<open>get_spor_util\<close>: every sporadic member of runnable reads the cycle counter
  once, so the state is threaded through the loop.
\<close>

function spor_util_loop :: "(nat \<Rightarrow> rt_thread_ptr) \<Rightarrow> nat \<Rightarrow> nat \<Rightarrow> u64 \<Rightarrow> sys_state
    \<Rightarrow> error + u64 \<times> sys_state" where
  "spor_util_loop ts n i util s =
    (if i < n then
       (if rtype (heap s (ts i)) = SPORADIC then
          (if deadline (heap s (ts i)) - fst (cur_time s) = 0 then Inl DivByZero
           else spor_util_loop ts n (i + 1)
                  (util + (work (constraints (heap s (ts i))) * 100000) div
                            (deadline (heap s (ts i)) - fst (cur_time s)))
                  (snd (cur_time s)))
        else spor_util_loop ts n (i + 1) util s)
     else Inr (util, s))"
  by pat_completeness auto
termination
  by (relation "measure (\<lambda>(ts, n, i, util, s). n - i)") auto

declare spor_util_loop.simps [simp del]

definition get_spor_util :: "rt_queue \<Rightarrow> sys_state \<Rightarrow> error + u64 \<times> sys_state" where
  "get_spor_util rq s = spor_util_loop (threads rq) (qsize rq) 0 0 s"

text \<open>\<open>rt_admit\<close> returns the int 0 (denied) or 1 (admitted), and the state.\<close>

definition rt_admit :: "rt_thread_ptr \<Rightarrow> sys_state \<Rightarrow> error + int \<times> sys_state" where
  "rt_admit thread s =
    (if rtype (heap s thread) = PERIODIC then
       (case get_per_util (runnable s) (pending s) (heap s) of
          Inl e \<Rightarrow> Inl e
        | Inr per_util \<Rightarrow>
            (if period (constraints (heap s thread)) = 0 then Inl DivByZero
             else if per_util + (slice (constraints (heap s thread)) * 100000) div
                                   period (constraints (heap s thread)) > PERIODIC_UTIL
             then Inr (0, s)
             else Inr (1, s)))
     else if rtype (heap s thread) = SPORADIC then
       (case get_spor_util (runnable s) s of
          Inl e \<Rightarrow> Inl e
        | Inr r \<Rightarrow> (if fst r > SPORADIC_UTIL then Inr (0, snd r) else Inr (1, snd r)))
     else Inr (1, s))"

section \<open>Notions used in the statements\<close>

text \<open>
  The descriptors that a queue holds: the pointers in its first \<open>qsize\<close> slots, in the
  order of the slots.
\<close>

definition live :: "rt_queue \<Rightarrow> rt_thread_ptr list" where
  "live q = map (threads q) [0..<qsize q]"

text \<open>
  Invariant I2 of the specification for the first \<open>n\<close> slots of an array: the key of
  every slot but the root is at least the key of its parent. \<open>kp\<close> gives the key of the
  descriptor behind a pointer.
\<close>

definition heap_ok :: "(rt_thread_ptr \<Rightarrow> u64) \<Rightarrow> (nat \<Rightarrow> rt_thread_ptr) \<Rightarrow> nat \<Rightarrow> bool" where
  "heap_ok kp ts n = (\<forall>i. 0 < i \<and> i < n \<longrightarrow> kp (ts (parent i)) \<le> kp (ts i))"

text \<open>
  The invariant of the sift-up loop with the hole at \<open>pos\<close> and the key \<open>kt\<close> of the
  descriptor being inserted: the order holds on every edge that does not touch the
  hole, and both \<open>kt\<close> and the key above the hole are at most the keys below the hole.
\<close>

definition up_inv :: "(rt_thread_ptr \<Rightarrow> u64) \<Rightarrow> u64 \<Rightarrow> (nat \<Rightarrow> rt_thread_ptr) \<Rightarrow> nat \<Rightarrow> nat \<Rightarrow> bool" where
  "up_inv kp kt ts m pos =
    (pos < m \<and>
     (\<forall>i. 0 < i \<and> i < m \<and> i \<noteq> pos \<and> parent i \<noteq> pos \<longrightarrow> kp (ts (parent i)) \<le> kp (ts i)) \<and>
     (\<forall>c. 0 < c \<and> c < m \<and> parent c = pos \<longrightarrow> kt \<le> kp (ts c)) \<and>
     (\<forall>c. 0 < c \<and> c < m \<and> parent c = pos \<and> 0 < pos \<longrightarrow> kp (ts (parent pos)) \<le> kp (ts c)))"

text \<open>
  The child that the sift-down loop compares the last element with, and the invariant of
  the loop with the hole at \<open>now\<close> and the key \<open>kl\<close> of the last element: the array is
  ordered, slot \<open>n\<close> still holds the last element, and the key above the hole is at
  most \<open>kl\<close>.
\<close>

definition down_child :: "(rt_thread_ptr \<Rightarrow> u64) \<Rightarrow> (nat \<Rightarrow> rt_thread_ptr) \<Rightarrow> nat \<Rightarrow> nat \<Rightarrow> nat" where
  "down_child kp ts n now =
    (if left_child now < n \<and> kp (ts (right_child now)) < kp (ts (left_child now))
     then right_child now else left_child now)"

definition down_inv :: "(rt_thread_ptr \<Rightarrow> u64) \<Rightarrow> u64 \<Rightarrow> (nat \<Rightarrow> rt_thread_ptr) \<Rightarrow> nat \<Rightarrow> nat \<Rightarrow> bool" where
  "down_inv kp kl ts n now =
    (now < n \<and> heap_ok kp ts n \<and> kp (ts n) = kl \<and> (0 < now \<longrightarrow> kp (ts (parent now)) \<le> kl))"

text \<open>
  The round trips of property P4 of the specification: enqueue a list of descriptors one
  after the other, and drain a queue by dequeueing until \<open>dequeue_thread\<close> returns null.
  \<open>queue_key\<close> is the key that orders a heap queue.
\<close>

definition is_heap_queue :: "queue_type \<Rightarrow> bool" where
  "is_heap_queue ty = (ty = RUNNABLE_QUEUE \<or> ty = PENDING_QUEUE \<or> ty = APERIODIC_QUEUE)"

definition queue_key :: "queue_type \<Rightarrow> rt_thread \<Rightarrow> u64" where
  "queue_key ty = (if ty = APERIODIC_QUEUE then aperiodic_priority else deadline)"

fun enqueue_all :: "queue_type \<Rightarrow> rt_thread_ptr list \<Rightarrow> rt_queue \<Rightarrow> store \<Rightarrow> rt_queue \<times> store" where
  "enqueue_all ty [] q h = (q, h)"
| "enqueue_all ty (x # xs) q h =
    enqueue_all ty xs (fst (enqueue_thread ty q x h)) (snd (enqueue_thread ty q x h))"

partial_function (option) drain_all :: "queue_type \<Rightarrow> rt_queue \<Rightarrow> store \<Rightarrow> rt_thread_ptr list option" where
  "drain_all ty q h =
    (case dequeue_thread ty q h of
       None \<Rightarrow> None
     | Some r \<Rightarrow>
         (case snd r of
            None \<Rightarrow> Some []
          | Some x \<Rightarrow> Option.bind (drain_all ty (fst r) h) (\<lambda>ys. Some (x # ys))))"

declare drain_all.simps [code]

text \<open>
  What the dispatcher leaves alone in the descriptors: between two stores, no descriptor
  changes its class, its status, its start time or its exit time, and a run time changes
  only by being reset to 0.
\<close>

definition store_frame :: "store \<Rightarrow> store \<Rightarrow> bool" where
  "store_frame h h' =
    (\<forall>p. rtype (h' p) = rtype (h p) \<and> status (h' p) = status (h p) \<and>
         start_time (h' p) = start_time (h p) \<and> exit_time (h' p) = exit_time (h p) \<and>
         (run_time (h' p) = run_time (h p) \<or> run_time (h' p) = 0))"

text \<open>
  The quantities of the admission test of section 4.6 of the specification. The periodic
  members of runnable and pending, in the order of the two loops of \<open>get_per_util\<close>;
  the scaled utilization of a descriptor as the source computes it, in 64-bit unsigned
  arithmetic with a truncating division; the same quotient over the natural numbers; and
  the utilization slice / period as a real number.
\<close>

definition periodic_members :: "sys_state \<Rightarrow> rt_thread_ptr list" where
  "periodic_members s =
    filter (\<lambda>p. rtype (heap s p) = PERIODIC) (live (runnable s) @ live (pending s))"

definition scaled_util :: "rt_thread \<Rightarrow> u64" where
  "scaled_util t = (slice (constraints t) * 100000) div period (constraints t)"

definition nat_util :: "rt_thread \<Rightarrow> nat" where
  "nat_util t = (unat (slice (constraints t)) * 100000) div unat (period (constraints t))"

definition utilization :: "rt_thread \<Rightarrow> real" where
  "utilization t = real (unat (slice (constraints t))) / real (unat (period (constraints t)))"

section \<open>Concrete states\<close>

text \<open>
  Small states on which the operations are run: a queue holding the given pointers in
  its first slots, a descriptor, and a scheduler state whose cycle counter reads 50, 51,
  52 and so on.
\<close>

definition mk_queue :: "rt_thread_ptr list \<Rightarrow> rt_queue" where
  "mk_queue xs =
    \<lparr>qsize = length xs, head = 0, tail = length xs,
     threads = (\<lambda>i. if i < length xs then xs ! i else NULL)\<rparr>"

definition mk_thread :: "rt_type \<Rightarrow> rt_status \<Rightarrow> u64 \<Rightarrow> u64 \<Rightarrow> u64 \<Rightarrow> u64 \<Rightarrow> rt_thread" where
  "mk_thread ty st per budget rt dl =
    \<lparr>rtype = ty, q_type = RUNNABLE_QUEUE, status = st,
     constraints = \<lparr>period = per, slice = budget, work = budget, priority = 0\<rparr>,
     start_time = 10, run_time = rt, deadline = dl, exit_time = 3, nk_thread = 0\<rparr>"

definition mk_state :: "store \<Rightarrow> rt_thread_ptr list \<Rightarrow> rt_thread_ptr list \<Rightarrow> rt_thread_ptr list
    \<Rightarrow> rt_thread_ptr \<Rightarrow> sys_state" where
  "mk_state h r p a c =
    \<lparr>runnable = mk_queue r, pending = mk_queue p, aperiodic = mk_queue a,
     arrival = mk_queue [], waiting = mk_queue [], sleeping = mk_queue [], exited = mk_queue [],
     sched_run_time = 0, tsc_start_time = 0, tsc_set_time = 0, tsc_end_time = 0,
     heap = h, apic_timer = 0, rdtsc = (\<lambda>n. 50 + of_nat n), reads = 0, cur_thread = c\<rparr>"

definition ex_store :: store where
  "ex_store =
    (\<lambda>p. if p = 1 then mk_thread PERIODIC RUNNING 1000 100 0 500
         else if p = 2 then mk_thread PERIODIC TOBE_REMOVED 1000 100 0 40
         else if p = 3 then mk_thread PERIODIC ADMITTED 1000 100 0 30
         else if p = 4 then mk_thread PERIODIC ADMITTED 1000 100 0 80
         else if p = 5 then mk_thread PERIODIC ADMITTED 1000 100 0 50
         else if p = 6 then mk_thread PERIODIC RUNNING 1000 100 100 500
         else if p = 7 then mk_thread PERIODIC RUNNING 1000 100 100 2
         else if p = 8 then mk_thread SPORADIC RUNNING 0 100 0 500
         else if p = 10 then mk_thread PERIODIC ADMITTED 100001 1 0 500
         else if p = 11 then mk_thread PERIODIC ARRIVED 100000 65000 0 500
         else if p = 12 then mk_thread PERIODIC ARRIVED 100 80 0 500
         else if p = 13 then mk_thread PERIODIC RUNNING 1000 100 100 20
         else if p = 14 then mk_thread PERIODIC ADMITTED 1000 100 0 600
         else mk_thread APERIODIC ADMITTED 0 0 0 0)"

section \<open>Properties\<close>

lemma umin_le1: "umin x y \<le> x"
  by (auto simp: umin_def)

lemma umin_le2: "umin x y \<le> y"
  by (auto simp: umin_def)

subsection \<open>The binary heap in the array\<close>

lemma parent_less: "0 < i \<Longrightarrow> parent i < i"
  by (simp add: parent_def)

lemma parent_left [simp]: "parent (left_child i) = i"
  by (simp add: parent_def left_child_def)

lemma parent_right [simp]: "parent (right_child i) = i"
  by (simp add: parent_def right_child_def)

lemma parent_cases: "0 < i \<Longrightarrow> i = left_child (parent i) \<or> i = right_child (parent i)"
  by (auto simp: parent_def left_child_def right_child_def)

lemma map_fun_upd_upt: "map (f(i := v)) [0..<n] = (map f [0..<n])[i := v]"
  by (rule nth_equalityI) auto

lemma mset_hole_move:
  assumes "a < n" "b < n"
  shows "mset (map ((f(a := f b))(b := v)) [0..<n]) = mset (map (f(a := v)) [0..<n])"
proof (cases "a = b")
  case True
  then show ?thesis by simp
next
  case False
  define M where "M = map (f(a := v)) [0..<n]"
  have len: "length M = n" by (simp add: M_def)
  have eq: "map ((f(a := f b))(b := v)) [0..<n] = M[a := M ! b, b := M ! a]"
    using assms False by (intro nth_equalityI) (auto simp: nth_list_update M_def)
  have "mset (M[a := M ! b, b := M ! a]) = mset M"
    using assms len by (intro mset_swap) simp_all
  then show ?thesis
    unfolding eq M_def .
qed

lemma sift_up_mset:
  "pos < m \<Longrightarrow>
   mset (map ((fst (sift_up key h t ts pos))(snd (sift_up key h t ts pos) := t)) [0..<m]) =
   mset (map (ts(pos := t)) [0..<m])"
proof (induction key h t ts pos rule: sift_up.induct)
  case (1 key h t ts pos)
  show ?case
  proof (cases "key (h (ts (parent pos))) > key (h t) \<and> pos \<noteq> parent pos")
    case True
    then have p: "parent pos < pos" by (auto simp: parent_def split: if_splits)
    with "1.prems" have pm: "parent pos < m" by simp
    have "mset (map ((fst (sift_up key h t (ts(pos := ts (parent pos))) (parent pos)))
              (snd (sift_up key h t (ts(pos := ts (parent pos))) (parent pos)) := t)) [0..<m]) =
          mset (map ((ts(pos := ts (parent pos)))(parent pos := t)) [0..<m])"
      using "1.IH" [OF True pm] .
    also have "\<dots> = mset (map (ts(pos := t)) [0..<m])"
      using mset_hole_move [OF "1.prems" pm] .
    finally show ?thesis
      using True by (subst (1 2) sift_up.simps) simp
  next
    case False
    then show ?thesis by (subst (1 2) sift_up.simps) auto
  qed
qed

lemma up_inv_step:
  assumes inv: "up_inv kp kt ts m pos" and gt: "kt < kp (ts (parent pos))" and ne: "pos \<noteq> parent pos"
  shows "up_inv kp kt (ts(pos := ts (parent pos))) m (parent pos)"
proof -
  have pos0: "0 < pos" using ne by (auto simp: parent_def split: if_splits)
  then have p: "parent pos < pos" by (rule parent_less)
  have pm: "pos < m" using inv by (simp add: up_inv_def)
  have a: "\<And>i. 0 < i \<Longrightarrow> i < m \<Longrightarrow> i \<noteq> pos \<Longrightarrow> parent i \<noteq> pos \<Longrightarrow> kp (ts (parent i)) \<le> kp (ts i)"
    using inv by (simp add: up_inv_def)
  have b: "\<And>c. 0 < c \<Longrightarrow> c < m \<Longrightarrow> parent c = pos \<Longrightarrow> kt \<le> kp (ts c)"
    using inv by (simp add: up_inv_def)
  have c: "\<And>c. 0 < c \<Longrightarrow> c < m \<Longrightarrow> parent c = pos \<Longrightarrow> kp (ts (parent pos)) \<le> kp (ts c)"
    using inv pos0 by (simp add: up_inv_def)
  let ?ts = "ts(pos := ts (parent pos))"
  have pp: "parent (parent pos) \<noteq> pos"
    using p parent_less [of "parent pos"] by (cases "parent pos = 0") (auto simp: parent_def)
  have edge_p: "0 < parent pos \<Longrightarrow> kp (ts (parent (parent pos))) \<le> kp (ts (parent pos))"
    using a [of "parent pos"] p pm pp by simp
  have a': "kp (?ts (parent i)) \<le> kp (?ts i)"
    if "0 < i" "i < m" "i \<noteq> parent pos" "parent i \<noteq> parent pos" for i
  proof (cases "parent i = pos")
    case True
    then have "i \<noteq> pos" using parent_less [OF that(1)] by auto
    then show ?thesis using True c [OF that(1,2) True] by simp
  next
    case False
    moreover have "i \<noteq> pos" using that(4) by auto
    ultimately show ?thesis using a [OF that(1,2)] by simp
  qed
  have b': "kt \<le> kp (?ts c)" if "0 < c" "c < m" "parent c = parent pos" for c
  proof (cases "c = pos")
    case True
    then show ?thesis using gt by simp
  next
    case False
    have "parent c \<noteq> pos" using that(3) p by simp
    then have "kp (ts (parent c)) \<le> kp (ts c)" using a [OF that(1,2) False] by simp
    then show ?thesis using False gt that(3) by simp
  qed
  have c': "kp (?ts (parent (parent pos))) \<le> kp (?ts c)"
    if "0 < c" "c < m" "parent c = parent pos" "0 < parent pos" for c
  proof (cases "c = pos")
    case True
    then show ?thesis using edge_p [OF that(4)] pp by simp
  next
    case False
    have "parent c \<noteq> pos" using that(3) p by simp
    then have "kp (ts (parent c)) \<le> kp (ts c)" using a [OF that(1,2) False] by simp
    then show ?thesis using False edge_p [OF that(4)] pp that(3) by simp
  qed
  show ?thesis
    unfolding up_inv_def using p pm a' b' c' by (intro conjI allI impI) auto
qed

lemma up_inv_exit:
  assumes inv: "up_inv kp kt ts m pos" and ex: "\<not> (kt < kp (ts (parent pos)) \<and> pos \<noteq> parent pos)"
    and kt: "kp t = kt"
  shows "heap_ok kp (ts(pos := t)) m"
  unfolding heap_ok_def
proof (intro allI impI)
  fix i assume i: "0 < i \<and> i < m"
  then have pi: "parent i < i" by (simp add: parent_less)
  show "kp ((ts(pos := t)) (parent i)) \<le> kp ((ts(pos := t)) i)"
  proof (cases "i = pos")
    case True
    then show ?thesis using ex pi kt by auto
  next
    case ne: False
    show ?thesis
    proof (cases "parent i = pos")
      case True
      then show ?thesis using inv i ne kt by (simp add: up_inv_def)
    next
      case False
      then show ?thesis using inv i ne by (simp add: up_inv_def)
    qed
  qed
qed

lemma sift_up_rec:
  "key (h (ts (parent pos))) > key (h t) \<and> pos \<noteq> parent pos \<Longrightarrow>
   sift_up key h t ts pos = sift_up key h t (ts(pos := ts (parent pos))) (parent pos)"
  by (subst sift_up.simps) simp

lemma sift_up_stop:
  "\<not> (key (h (ts (parent pos))) > key (h t) \<and> pos \<noteq> parent pos) \<Longrightarrow>
   sift_up key h t ts pos = (ts, pos)"
  by (subst sift_up.simps) auto

lemma sift_up_heap:
  "up_inv (\<lambda>p. key (h p)) (key (h t)) ts m pos \<Longrightarrow>
   heap_ok (\<lambda>p. key (h p)) ((fst (sift_up key h t ts pos))(snd (sift_up key h t ts pos) := t)) m"
proof (induction key h t ts pos rule: sift_up.induct)
  case (1 key h t ts pos)
  show ?case
  proof (cases "key (h (ts (parent pos))) > key (h t) \<and> pos \<noteq> parent pos")
    case True
    have "up_inv (\<lambda>p. key (h p)) (key (h t)) (ts(pos := ts (parent pos))) m (parent pos)"
      using up_inv_step [OF "1.prems"] True by simp
    from "1.IH" [OF True this] show ?thesis
      unfolding sift_up_rec [where key=key and h=h and t=t and ts=ts and pos=pos, OF True] .
  next
    case False
    have "heap_ok (\<lambda>p. key (h p)) (ts(pos := t)) m"
      using up_inv_exit [OF "1.prems"] False by simp
    then show ?thesis
      unfolding sift_up_stop [where key=key and h=h and t=t and ts=ts and pos=pos, OF False]
      by (simp only: fst_conv snd_conv)
  qed
qed

lemma sift_down_rec:
  "left_child now < n \<Longrightarrow>
   key (h last_t) > key (h (ts (down_child (\<lambda>p. key (h p)) ts n now))) \<Longrightarrow>
   sift_down key h last_t ts n now =
   sift_down key h last_t (ts(now := ts (down_child (\<lambda>p. key (h p)) ts n now))) n
     (down_child (\<lambda>p. key (h p)) ts n now)"
  by (subst sift_down.simps) (simp add: down_child_def Let_def)

lemma sift_down_stop:
  "\<not> (left_child now < n \<and> key (h last_t) > key (h (ts (down_child (\<lambda>p. key (h p)) ts n now)))) \<Longrightarrow>
   sift_down key h last_t ts n now = (ts, now)"
  by (subst sift_down.simps) (auto simp: down_child_def Let_def)

lemma down_child_cases:
  "down_child kp ts n now = left_child now \<or> down_child kp ts n now = right_child now"
  by (simp add: down_child_def)

lemma down_child_less:
  assumes "left_child now < n" "kp (ts n) = kl" "kp (ts (down_child kp ts n now)) < kl"
  shows "down_child kp ts n now < n"
proof (cases "down_child kp ts n now = left_child now")
  case True
  then show ?thesis using assms(1) by simp
next
  case False
  then have r: "down_child kp ts n now = right_child now"
    using down_child_cases [of kp ts n now] by simp
  have "right_child now \<le> n" using assms(1) by (simp add: left_child_def right_child_def)
  moreover have "right_child now \<noteq> n" using assms(2,3) r by auto
  ultimately show ?thesis using r by simp
qed

lemma down_child_min:
  assumes "left_child now < n" "0 < i" "i < n" "parent i = now"
  shows "kp (ts (down_child kp ts n now)) \<le> kp (ts i)"
proof -
  have "i = left_child now \<or> i = right_child now"
    using parent_cases [OF assms(2)] assms(4) by simp
  then show ?thesis
    using assms(1) by (auto simp: down_child_def)
qed

lemma down_inv_step:
  assumes inv: "down_inv kp kl ts n now" and lc: "left_child now < n"
    and gt: "kp (ts (down_child kp ts n now)) < kl"
  shows "down_inv kp kl (ts(now := ts (down_child kp ts n now))) n (down_child kp ts n now)"
proof -
  let ?c = "down_child kp ts n now"
  let ?ts = "ts(now := ts ?c)"
  have now: "now < n" and hp: "heap_ok kp ts n" and kn: "kp (ts n) = kl"
    using inv by (simp_all add: down_inv_def)
  have cn: "?c < n" using down_child_less [OF lc kn gt] .
  have pc: "parent ?c = now" using down_child_cases [of kp ts n now] by auto
  have c0: "0 < ?c" using down_child_cases [of kp ts n now]
    by (auto simp: left_child_def right_child_def)
  have cne: "?c \<noteq> now" using pc parent_less [OF c0] by simp
  have edge: "\<And>i. 0 < i \<Longrightarrow> i < n \<Longrightarrow> kp (ts (parent i)) \<le> kp (ts i)"
    using hp by (simp add: heap_ok_def)
  have "kp (?ts (parent i)) \<le> kp (?ts i)" if i: "0 < i" "i < n" for i
  proof (cases "i = now")
    case True
    have "kp (ts (parent now)) \<le> kp (ts now)" using edge [of now] i True by simp
    also have "\<dots> \<le> kp (ts ?c)" using edge [OF c0 cn] pc by simp
    finally show ?thesis using True parent_less [OF i(1)] by simp
  next
    case ne: False
    show ?thesis
    proof (cases "parent i = now")
      case True
      then show ?thesis using down_child_min [OF lc i True] ne by simp
    next
      case False
      then show ?thesis using edge [OF i] ne by simp
    qed
  qed
  then have "heap_ok kp ?ts n" by (simp add: heap_ok_def)
  moreover have "kp (?ts n) = kl" using kn now by simp
  moreover have "kp (?ts (parent ?c)) \<le> kl" using pc gt by simp
  ultimately show ?thesis using cn by (simp add: down_inv_def)
qed

lemma down_inv_exit:
  assumes inv: "down_inv kp kl ts n now"
    and ex: "\<not> (left_child now < n \<and> kp (ts (down_child kp ts n now)) < kl)"
    and kl: "kp l = kl"
  shows "heap_ok kp (ts(now := l)) n"
  unfolding heap_ok_def
proof (intro allI impI)
  fix i assume i: "0 < i \<and> i < n"
  have now: "now < n" and hp: "heap_ok kp ts n" and kn: "kp (ts n) = kl"
    and up: "0 < now \<Longrightarrow> kp (ts (parent now)) \<le> kl"
    using inv by (simp_all add: down_inv_def)
  have edge: "\<And>i. 0 < i \<Longrightarrow> i < n \<Longrightarrow> kp (ts (parent i)) \<le> kp (ts i)"
    using hp by (simp add: heap_ok_def)
  show "kp ((ts(now := l)) (parent i)) \<le> kp ((ts(now := l)) i)"
  proof (cases "i = now")
    case True
    then show ?thesis using up i kl parent_less [of i] by simp
  next
    case ne: False
    show ?thesis
    proof (cases "parent i = now")
      case True
      have il: "i = left_child now \<or> i = right_child now"
        using parent_cases [of i] i True by simp
      then have lc: "left_child now < n" using i by (auto simp: left_child_def right_child_def)
      then have le: "kl \<le> kp (ts (down_child kp ts n now))" using ex by simp
      have "kl \<le> kp (ts i)"
      proof (cases "down_child kp ts n now < n")
        case True
        then show ?thesis using le down_child_min [OF lc _ _ \<open>parent i = now\<close>, of kp ts] i by simp
      next
        case False
        then have r: "down_child kp ts n now = right_child now" and rn: "n \<le> right_child now"
          using down_child_cases [of kp ts n now] lc by auto
        then have "kp (ts (right_child now)) < kp (ts (left_child now))"
          by (auto simp: down_child_def split: if_splits simp: left_child_def right_child_def)
        moreover have "right_child now = n"
          using rn lc by (simp add: left_child_def right_child_def)
        moreover have "i = left_child now" using il rn i by auto
        ultimately show ?thesis using kn by simp
      qed
      then show ?thesis using True ne kl by simp
    next
      case False
      then show ?thesis using edge i ne by simp
    qed
  qed
qed

lemma sift_down_heap:
  "down_inv (\<lambda>p. key (h p)) (key (h l)) ts n now \<Longrightarrow>
   heap_ok (\<lambda>p. key (h p)) ((fst (sift_down key h l ts n now))(snd (sift_down key h l ts n now) := l)) n"
proof (induction key h l ts n now rule: sift_down.induct)
  case (1 key h l ts n now)
  define c where "c = (if left_child now < n \<and>
                          key (h (ts (right_child now))) < key (h (ts (left_child now)))
                       then right_child now else left_child now)"
  have c_eq: "down_child (\<lambda>p. key (h p)) ts n now = c"
    by (simp add: c_def down_child_def)
  show ?case
  proof (cases "left_child now < n \<and> key (h l) > key (h (ts c))")
    case True
    then have lc: "left_child now < n" and gt: "key (h l) > key (h (ts c))" by simp_all
    have inv': "down_inv (\<lambda>p. key (h p)) (key (h l)) (ts(now := ts c)) n c"
      using down_inv_step [OF "1.prems" lc] gt c_eq by simp
    have rec: "sift_down key h l ts n now = sift_down key h l (ts(now := ts c)) n c"
      using sift_down_rec [where key=key and h=h and last_t=l and ts=ts and n=n and now=now] lc gt c_eq
      by simp
    show ?thesis
      unfolding rec using "1.IH" [OF lc c_def gt inv'] .
  next
    case False
    have stop: "sift_down key h l ts n now = (ts, now)"
      using sift_down_stop [where key=key and h=h and last_t=l and ts=ts and n=n and now=now] False c_eq
      by simp
    have "heap_ok (\<lambda>p. key (h p)) (ts(now := l)) n"
      using down_inv_exit [OF "1.prems", of l] False c_eq by simp
    then show ?thesis
      unfolding stop by (simp only: fst_conv snd_conv)
  qed
qed

lemma sift_down_mset:
  "now < n \<Longrightarrow> key (h (ts n)) = key (h l) \<Longrightarrow>
   mset (map ((fst (sift_down key h l ts n now))(snd (sift_down key h l ts n now) := l)) [0..<n]) =
   mset (map (ts(now := l)) [0..<n])"
proof (induction key h l ts n now rule: sift_down.induct)
  case (1 key h l ts n now)
  define c where "c = (if left_child now < n \<and>
                          key (h (ts (right_child now))) < key (h (ts (left_child now)))
                       then right_child now else left_child now)"
  have c_eq: "down_child (\<lambda>p. key (h p)) ts n now = c"
    by (simp add: c_def down_child_def)
  show ?case
  proof (cases "left_child now < n \<and> key (h l) > key (h (ts c))")
    case True
    then have lc: "left_child now < n" and gt: "key (h l) > key (h (ts c))" by simp_all
    have cn: "c < n"
      using down_child_less [of now n "\<lambda>p. key (h p)" ts "key (h l)"] lc gt "1.prems"(2) c_eq by simp
    have kn: "key (h ((ts(now := ts c)) n)) = key (h l)"
      using "1.prems" by simp
    have rec: "sift_down key h l ts n now = sift_down key h l (ts(now := ts c)) n c"
      using sift_down_rec [where key=key and h=h and last_t=l and ts=ts and n=n and now=now] lc gt c_eq
      by simp
    have "mset (map ((fst (sift_down key h l (ts(now := ts c)) n c))
                     (snd (sift_down key h l (ts(now := ts c)) n c) := l)) [0..<n]) =
          mset (map ((ts(now := ts c))(c := l)) [0..<n])"
      using "1.IH" [OF lc c_def gt cn kn] .
    also have "\<dots> = mset (map (ts(now := l)) [0..<n])"
      using mset_hole_move [OF "1.prems"(1) cn] .
    finally show ?thesis
      unfolding rec .
  next
    case False
    have stop: "sift_down key h l ts n now = (ts, now)"
      using sift_down_stop [where key=key and h=h and last_t=l and ts=ts and n=n and now=now] False c_eq
      by simp
    show ?thesis
      unfolding stop by (simp only: fst_conv snd_conv)
  qed
qed

lemma heap_ok_root_min: "heap_ok kp ts n \<Longrightarrow> i < n \<Longrightarrow> kp (ts 0) \<le> kp (ts i)"
proof (induction i rule: less_induct)
  case (less i)
  show ?case
  proof (cases "i = 0")
    case True
    then show ?thesis by simp
  next
    case False
    then have p: "parent i < i" by (simp add: parent_less)
    have "kp (ts 0) \<le> kp (ts (parent i))" using less.IH [OF p less.prems(1)] p less.prems(2) by simp
    also have "\<dots> \<le> kp (ts i)" using less.prems False by (simp add: heap_ok_def)
    finally show ?thesis .
  qed
qed

lemma heap_ok_smaller: "heap_ok kp ts n \<Longrightarrow> m \<le> n \<Longrightarrow> heap_ok kp ts m"
  by (simp add: heap_ok_def)

subsection \<open>Enqueue on a heap queue\<close>

lemma enqueue_heap_full: "qsize q = MAX_QUEUE \<Longrightarrow> enqueue_heap key ty q t h = (q, h)"
  by (simp add: enqueue_heap_def)

lemma enqueue_heap_store:
  "qsize q \<noteq> MAX_QUEUE \<Longrightarrow> snd (enqueue_heap key ty q t h) = h(t := (h t)\<lparr>q_type := ty\<rparr>)"
  by (simp add: enqueue_heap_def Let_def)

lemma enqueue_heap_qsize:
  "qsize q < MAX_QUEUE \<Longrightarrow> qsize (fst (enqueue_heap key ty q t h)) = qsize q + 1"
  by (simp add: enqueue_heap_def Let_def MAX_QUEUE_def)

lemma enqueue_heap_live:
  assumes "qsize q < MAX_QUEUE"
  shows "mset (live (fst (enqueue_heap key ty q t h))) = add_mset t (mset (live q))"
proof -
  let ?n = "qsize q"
  let ?r = "sift_up key h t ((threads q)(?n := t)) ?n"
  have "mset (map ((fst ?r)(snd ?r := t)) [0..<?n + 1]) =
        mset (map (((threads q)(?n := t))(?n := t)) [0..<?n + 1])"
    by (rule sift_up_mset) simp
  also have "\<dots> = add_mset t (mset (map (threads q) [0..<?n]))"
    by simp
  finally show ?thesis
    using assms by (simp add: enqueue_heap_def Let_def live_def MAX_QUEUE_def)
qed

lemma enqueue_heap_ok:
  assumes "qsize q < MAX_QUEUE" and "heap_ok (\<lambda>p. key (h p)) (threads q) (qsize q)"
  shows "heap_ok (\<lambda>p. key (h p)) (threads (fst (enqueue_heap key ty q t h)))
           (qsize (fst (enqueue_heap key ty q t h)))"
proof -
  let ?n = "qsize q"
  let ?ts = "(threads q)(?n := t)"
  have "up_inv (\<lambda>p. key (h p)) (key (h t)) ?ts (?n + 1) ?n"
    unfolding up_inv_def
  proof (intro conjI allI impI)
    fix i assume i: "0 < i \<and> i < ?n + 1 \<and> i \<noteq> ?n \<and> parent i \<noteq> ?n"
    then have "i < ?n" by simp
    moreover have "parent i < ?n" using i parent_less [of i] by simp
    ultimately show "key (h (?ts (parent i))) \<le> key (h (?ts i))"
      using assms(2) i by (simp add: heap_ok_def)
  next
    fix c assume c: "0 < c \<and> c < ?n + 1 \<and> parent c = ?n"
    then show "key (h t) \<le> key (h (?ts c))" using parent_less [of c] by simp
  next
    fix c assume c: "0 < c \<and> c < ?n + 1 \<and> parent c = ?n \<and> 0 < ?n"
    then show "key (h (?ts (parent ?n))) \<le> key (h (?ts c))" using parent_less [of c] by simp
  qed simp
  then have "heap_ok (\<lambda>p. key (h p))
               ((fst (sift_up key h t ?ts ?n))(snd (sift_up key h t ?ts ?n) := t)) (?n + 1)"
    by (rule sift_up_heap)
  then show ?thesis
    using assms(1) by (simp add: enqueue_heap_def Let_def MAX_QUEUE_def)
qed

subsection \<open>Removing the root of a heap queue\<close>

lemma live_extract_at:
  "live (extract_at key h q i) =
   map ((fst (sift_down key h (threads q (qsize q - 1)) (threads q) (qsize q - 1) i))
        (snd (sift_down key h (threads q (qsize q - 1)) (threads q) (qsize q - 1) i)
           := threads q (qsize q - 1)))
       [0..<qsize q - 1]"
  by (simp add: live_def extract_at_def Let_def)

lemma extract_at_live:
  assumes "1 \<le> qsize q"
  shows "mset (live q) = add_mset (threads q 0) (mset (live (extract_at key h q 0)))"
proof (cases "qsize q = 1")
  case True
  then show ?thesis by (simp add: live_def extract_at_def Let_def)
next
  case False
  define n where "n = qsize q - 1"
  have n: "0 < n" "qsize q = Suc n" using assms False by (simp_all add: n_def)
  define ts where "ts = threads q"
  define r where "r = sift_down key h (ts n) ts n 0"
  have "mset (live (extract_at key h q 0)) = mset (map ((fst r)(snd r := ts n)) [0..<n])"
    unfolding live_extract_at r_def ts_def n_def ..
  also have "\<dots> = mset (map (ts(0 := ts n)) [0..<n])"
    unfolding r_def using n(1) by (intro sift_down_mset) simp_all
  also have "map (ts(0 := ts n)) [0..<n] = ts n # map ts [1..<n]"
    using n(1) by (simp add: upt_conv_Cons [of 0 n] del: upt_Suc)
  finally have e: "mset (live (extract_at key h q 0)) = add_mset (ts n) (mset (map ts [1..<n]))"
    by simp
  have "live q = ts 0 # map ts [1..<n] @ [ts n]"
    using n by (simp add: live_def ts_def upt_conv_Cons [of 0 n])
  then have "mset (live q) = add_mset (ts 0) (add_mset (ts n) (mset (map ts [1..<n])))"
    by simp
  then show ?thesis
    unfolding e ts_def by simp
qed

lemma extract_at_ok:
  assumes "heap_ok (\<lambda>p. key (h p)) (threads q) (qsize q)"
  shows "heap_ok (\<lambda>p. key (h p)) (threads (extract_at key h q 0)) (qsize (extract_at key h q 0))"
proof (cases "qsize q \<le> 1")
  case True
  then show ?thesis by (simp add: heap_ok_def)
next
  case False
  define n where "n = qsize q - 1"
  have n: "0 < n" "qsize q = Suc n" using False by (simp_all add: n_def)
  have "down_inv (\<lambda>p. key (h p)) (key (h (threads q n))) (threads q) n 0"
    using n assms by (simp add: down_inv_def heap_ok_smaller)
  then have "heap_ok (\<lambda>p. key (h p))
               ((fst (sift_down key h (threads q n) (threads q) n 0))
                (snd (sift_down key h (threads q n) (threads q) n 0) := threads q n)) n"
    by (rule sift_down_heap)
  then show ?thesis by (simp add: extract_at_def Let_def n_def)
qed

subsection \<open>Dequeue on a heap queue\<close>

lemma dequeue_heap_empty: "qsize q < 1 \<Longrightarrow> dequeue_heap key q h = (q, None)"
  by (subst dequeue_heap.simps) simp

lemma dequeue_heap_skip:
  "1 \<le> qsize q \<Longrightarrow> status (h (threads q 0)) = TOBE_REMOVED \<Longrightarrow>
   dequeue_heap key q h = dequeue_heap key (extract_at key h q 0) h"
  by (subst dequeue_heap.simps) (simp add: Let_def)

lemma dequeue_heap_root:
  "1 \<le> qsize q \<Longrightarrow> status (h (threads q 0)) \<noteq> TOBE_REMOVED \<Longrightarrow>
   dequeue_heap key q h = (extract_at key h q 0, Some (threads q 0))"
  by (subst dequeue_heap.simps) (simp add: Let_def)

lemma dequeue_heap_not_tobe_removed:
  "dequeue_heap key q h = (q', Some p) \<Longrightarrow> status (h p) \<noteq> TOBE_REMOVED"
proof (induction key q h rule: dequeue_heap.induct)
  case (1 key q h)
  show ?case
  proof (cases "qsize q < 1")
    case True
    then show ?thesis using "1.prems" by (simp add: dequeue_heap_empty)
  next
    case False
    show ?thesis
    proof (cases "status (h (threads q 0)) = TOBE_REMOVED")
      case True
      then show ?thesis
        using "1.IH" [OF False refl refl True] "1.prems" False by (simp add: dequeue_heap_skip)
    next
      case no: False
      then show ?thesis using "1.prems" False by (simp add: dequeue_heap_root)
    qed
  qed
qed

lemma dequeue_heap_ok:
  "heap_ok (\<lambda>p. key (h p)) (threads q) (qsize q) \<Longrightarrow>
   heap_ok (\<lambda>p. key (h p)) (threads (fst (dequeue_heap key q h))) (qsize (fst (dequeue_heap key q h)))"
proof (induction key q h rule: dequeue_heap.induct)
  case (1 key q h)
  show ?case
  proof (cases "qsize q < 1")
    case True
    then show ?thesis using "1.prems" by (simp add: dequeue_heap_empty)
  next
    case False
    show ?thesis
    proof (cases "status (h (threads q 0)) = TOBE_REMOVED")
      case True
      then show ?thesis
        using "1.IH" [OF False refl refl True extract_at_ok [OF "1.prems"]] False
        by (simp add: dequeue_heap_skip)
    next
      case no: False
      then show ?thesis using extract_at_ok [OF "1.prems"] False by (simp add: dequeue_heap_root)
    qed
  qed
qed

lemma dequeue_heap_live_subset:
  "set (live (fst (dequeue_heap key q h))) \<subseteq> set (live q) \<and>
   (\<forall>p. snd (dequeue_heap key q h) = Some p \<longrightarrow> p \<in> set (live q))"
proof (induction key q h rule: dequeue_heap.induct)
  case (1 key q h)
  show ?case
  proof (cases "qsize q < 1")
    case True
    then show ?thesis by (simp add: dequeue_heap_empty)
  next
    case False
    then have ge: "1 \<le> qsize q" by simp
    have sub: "set (live (extract_at key h q 0)) \<subseteq> set (live q)" and r: "threads q 0 \<in> set (live q)"
      using arg_cong [OF extract_at_live [OF ge, of key h], of set_mset] by auto
    show ?thesis
    proof (cases "status (h (threads q 0)) = TOBE_REMOVED")
      case True
      then show ?thesis
        using "1.IH" [OF False refl refl True] sub ge by (auto simp: dequeue_heap_skip)
    next
      case no: False
      then show ?thesis using sub r ge by (simp add: dequeue_heap_root)
    qed
  qed
qed

lemma dequeue_heap_none:
  "snd (dequeue_heap key q h) = None \<Longrightarrow> qsize (fst (dequeue_heap key q h)) = 0"
proof (induction key q h rule: dequeue_heap.induct)
  case (1 key q h)
  show ?case
  proof (cases "qsize q < 1")
    case True
    then show ?thesis by (simp add: dequeue_heap_empty)
  next
    case False
    show ?thesis
    proof (cases "status (h (threads q 0)) = TOBE_REMOVED")
      case True
      then show ?thesis
        using "1.IH" [OF False refl refl True] "1.prems" False by (simp add: dequeue_heap_skip)
    next
      case no: False
      then show ?thesis using "1.prems" False by (simp add: dequeue_heap_root)
    qed
  qed
qed

lemma dequeue_heap_account:
  "\<exists>ds. mset (live q) =
           mset (live (fst (dequeue_heap key q h))) + ds +
           (case snd (dequeue_heap key q h) of None \<Rightarrow> {#} | Some n \<Rightarrow> {#n#}) \<and>
        (\<forall>d\<in>#ds. status (h d) = TOBE_REMOVED)"
proof (induction key q h rule: dequeue_heap.induct)
  case (1 key q h)
  show ?case
  proof (cases "qsize q < 1")
    case True
    then show ?thesis by (simp add: dequeue_heap_empty)
  next
    case False
    then have ge: "1 \<le> qsize q" by simp
    note lv = extract_at_live [OF ge, of key h]
    show ?thesis
    proof (cases "status (h (threads q 0)) = TOBE_REMOVED")
      case True
      define r where "r = dequeue_heap key (extract_at key h q 0) h"
      obtain ds where ds: "mset (live (extract_at key h q 0)) =
           mset (live (fst r)) + ds + (case snd r of None \<Rightarrow> {#} | Some n \<Rightarrow> {#n#})"
          "\<forall>d\<in>#ds. status (h d) = TOBE_REMOVED"
        using "1.IH" [OF False refl refl True] unfolding r_def by blast
      have eq: "dequeue_heap key q h = r"
        using dequeue_heap_skip [where q=q and h=h and key=key] ge True by (simp add: r_def)
      have "mset (live q) = mset (live (fst r)) + add_mset (threads q 0) ds +
              (case snd r of None \<Rightarrow> {#} | Some n \<Rightarrow> {#n#})"
        unfolding lv ds(1) by simp
      moreover have "\<forall>d\<in>#add_mset (threads q 0) ds. status (h d) = TOBE_REMOVED"
        using ds(2) True by simp
      ultimately show ?thesis unfolding eq by blast
    next
      case no: False
      have "mset (live q) = mset (live (extract_at key h q 0)) + {#} + {#threads q 0#}"
        unfolding lv by simp
      then show ?thesis
        using dequeue_heap_root [where q=q and h=h and key=key] ge no by auto
    qed
  qed
qed

lemma dequeue_heap_none_all:
  assumes "snd (dequeue_heap key q h) = None"
  shows "\<forall>p\<in>set (live q). status (h p) = TOBE_REMOVED"
proof -
  obtain ds where ds: "mset (live q) =
           mset (live (fst (dequeue_heap key q h))) + ds +
           (case snd (dequeue_heap key q h) of None \<Rightarrow> {#} | Some n \<Rightarrow> {#n#})"
      "\<forall>d\<in>#ds. status (h d) = TOBE_REMOVED"
    using dequeue_heap_account [of q key h] by blast
  have "live (fst (dequeue_heap key q h)) = []"
    using dequeue_heap_none [OF assms] by (simp add: live_def)
  then have "mset (live q) = ds" using ds(1) assms by simp
  then have "set (live q) = set_mset ds" by (metis set_mset_mset)
  then show ?thesis using ds(2) by simp
qed

subsection \<open>Filling and draining a heap queue\<close>

lemma dequeue_thread_heap:
  "is_heap_queue ty \<Longrightarrow> dequeue_thread ty q h = Some (dequeue_heap (queue_key ty) q h)"
  by (auto simp: is_heap_queue_def dequeue_thread_def queue_key_def)

lemma enqueue_thread_heap:
  "is_heap_queue ty \<Longrightarrow> enqueue_thread ty q t h = enqueue_heap (queue_key ty) ty q t h"
  by (auto simp: is_heap_queue_def enqueue_thread_def queue_key_def)

lemma queue_key_q_type [simp]: "queue_key ty (t\<lparr>q_type := v\<rparr>) = queue_key ty t"
  by (simp add: queue_key_def aperiodic_priority_def)

lemma enqueue_all_heap:
  assumes "is_heap_queue ty"
  shows "qsize q + length xs \<le> MAX_QUEUE \<Longrightarrow>
         heap_ok (\<lambda>p. queue_key ty (h p)) (threads q) (qsize q) \<Longrightarrow>
         heap_ok (\<lambda>p. queue_key ty (h p)) (threads (fst (enqueue_all ty xs q h)))
           (qsize (fst (enqueue_all ty xs q h))) \<and>
         mset (live (fst (enqueue_all ty xs q h))) = mset (live q) + mset xs \<and>
         (\<forall>p. queue_key ty (snd (enqueue_all ty xs q h) p) = queue_key ty (h p)) \<and>
         (\<forall>p. status (snd (enqueue_all ty xs q h) p) = status (h p))"
proof (induction xs arbitrary: q h)
  case Nil
  then show ?case by simp
next
  case (Cons x xs)
  define q1 where "q1 = fst (enqueue_heap (queue_key ty) ty q x h)"
  define h1 where "h1 = snd (enqueue_heap (queue_key ty) ty q x h)"
  have lt: "qsize q < MAX_QUEUE" using Cons.prems(1) by simp
  have h1: "h1 = h(x := (h x)\<lparr>q_type := ty\<rparr>)"
    using lt by (simp add: h1_def enqueue_heap_store)
  have k1: "(\<lambda>p. queue_key ty (h1 p)) = (\<lambda>p. queue_key ty (h p))"
    by (rule ext) (simp add: h1)
  have s1: "\<And>p. status (h1 p) = status (h p)" by (simp add: h1)
  have sz: "qsize q1 = qsize q + 1" using lt by (simp add: q1_def enqueue_heap_qsize)
  have ok1: "heap_ok (\<lambda>p. queue_key ty (h1 p)) (threads q1) (qsize q1)"
    unfolding k1 q1_def using enqueue_heap_ok [OF lt Cons.prems(2)] .
  have l1: "mset (live q1) = add_mset x (mset (live q))"
    unfolding q1_def using enqueue_heap_live [OF lt] .
  have step: "enqueue_all ty (x # xs) q h = enqueue_all ty xs q1 h1"
    using assms by (simp add: enqueue_thread_heap q1_def h1_def)
  have "qsize q1 + length xs \<le> MAX_QUEUE" using Cons.prems(1) sz by simp
  from Cons.IH [OF this ok1] show ?case
    unfolding step using l1 s1 k1 by (auto dest: fun_cong)
qed

lemma drain_all_heap:
  assumes "is_heap_queue ty"
  shows "heap_ok (\<lambda>p. queue_key ty (h p)) (threads q) (qsize q) \<Longrightarrow>
         \<forall>p\<in>set (live q). status (h p) \<noteq> TOBE_REMOVED \<Longrightarrow>
         \<exists>ys. drain_all ty q h = Some ys \<and> mset ys = mset (live q) \<and>
              sorted (map (\<lambda>p. queue_key ty (h p)) ys)"
proof (induction "qsize q" arbitrary: q)
  case 0
  then have "dequeue_heap (queue_key ty) q h = (q, None)" by (simp add: dequeue_heap_empty)
  then have "drain_all ty q h = Some []"
    using assms by (subst drain_all.simps) (simp add: dequeue_thread_heap)
  then show ?case using 0 by (simp add: live_def)
next
  case (Suc n)
  let ?k = "\<lambda>p. queue_key ty (h p)"
  let ?q = "extract_at (queue_key ty) h q 0"
  have ge: "1 \<le> qsize q" using Suc.hyps(2) by simp
  have lv: "mset (live q) = add_mset (threads q 0) (mset (live ?q))"
    using extract_at_live [OF ge] .
  have root_t: "threads q 0 \<in> set (live q)" and sub: "set (live ?q) \<subseteq> set (live q)"
    using arg_cong [OF lv, of set_mset] by auto
  have nt: "status (h (threads q 0)) \<noteq> TOBE_REMOVED" using Suc.prems(2) root_t by simp
  have dq: "dequeue_heap (queue_key ty) q h = (?q, Some (threads q 0))"
    using dequeue_heap_root [where q=q and h=h, OF ge nt] .
  have "n = qsize ?q" using Suc.hyps(2) by simp
  moreover have "heap_ok ?k (threads ?q) (qsize ?q)" using extract_at_ok [OF Suc.prems(1)] .
  moreover have "\<forall>p\<in>set (live ?q). status (h p) \<noteq> TOBE_REMOVED" using Suc.prems(2) sub by auto
  ultimately obtain ys where ys: "drain_all ty ?q h = Some ys" "mset ys = mset (live ?q)"
      "sorted (map ?k ys)"
    using Suc.hyps(1) by blast
  have dr: "drain_all ty q h = Some (threads q 0 # ys)"
    using assms dq ys(1) by (subst drain_all.simps) (simp add: dequeue_thread_heap)
  have "?k (threads q 0) \<le> ?k y" if "y \<in> set ys" for y
  proof -
    have "y \<in> set (live q)" using that ys(2) sub by (metis mset_eq_setD subsetD)
    then obtain i where "i < qsize q" "y = threads q i" by (auto simp: live_def)
    then show ?thesis using heap_ok_root_min [OF Suc.prems(1)] by simp
  qed
  then have "sorted (map ?k (threads q 0 # ys))" using ys(3) by auto
  then show ?case using dr ys(2) lv by simp
qed

subsection \<open>Round trips through a queue\<close>

lemma ring_round_trip:
  assumes "\<not> is_heap_queue ty" "qsize q = 0" "head q = tail q" "tail q < MAX_QUEUE"
    and "ty = EXITED_QUEUE \<longrightarrow> status (h x) \<noteq> TOBE_REMOVED"
  shows "\<exists>q'. dequeue_thread ty (fst (enqueue_thread ty q x h)) (snd (enqueue_thread ty q x h))
           = Some (q', Some x)"
proof -
  obtain st where e: "enqueue_thread ty q x h = enqueue_ring ty st q x h"
    and st: "st = None \<longleftrightarrow> ty = EXITED_QUEUE" "st \<noteq> Some TOBE_REMOVED"
    using assms(1) by (cases ty) (auto simp: enqueue_thread_def is_heap_queue_def)
  have d: "\<And>q' h'. dequeue_thread ty q' h' = dequeue_ring h' q'"
    using assms(1) by (cases ty) (auto simp: dequeue_thread_def is_heap_queue_def)
  define q1 where "q1 = fst (enqueue_ring ty st q x h)"
  define h1 where "h1 = snd (enqueue_ring ty st q x h)"
  have t: "tail q + 1 < 2 ^ 64" using assms(4) by (simp add: MAX_QUEUE_def)
  have hd: "head q1 = tail q" and tl: "tail q1 \<noteq> tail q" and th: "threads q1 (tail q) = x"
    using assms(2,3,4) t by (auto simp: q1_def enqueue_ring_def Let_def MAX_QUEUE_def)
  have "status (h1 x) \<noteq> TOBE_REMOVED"
    using assms(2,5) st by (cases st) (auto simp: h1_def enqueue_ring_def Let_def MAX_QUEUE_def)
  then have "\<exists>q'. dequeue_ring h1 q1 = Some (q', Some x)"
    using hd tl th by (subst dequeue_ring.simps) simp
  then show ?thesis
    unfolding e d q1_def h1_def .
qed

text \<open>
  C9 (as amended): a descriptor enqueued into an empty ring queue is what the next
  dequeue returns, unless the queue is the exited queue and the descriptor has status
  ToBeRemoved; and the descriptors of a list no longer than the capacity, none of them
  with status ToBeRemoved, enqueued into an empty heap queue come out of the repeated
  dequeue as the same descriptors in non-decreasing order of the key of the queue.
\<close>

theorem queue_round_trip:
  "(\<not> is_heap_queue ty \<and> qsize q = 0 \<and> head q = tail q \<and> tail q < MAX_QUEUE \<and>
    (ty = EXITED_QUEUE \<longrightarrow> status (h x) \<noteq> TOBE_REMOVED) \<longrightarrow>
    (\<exists>q'. dequeue_thread ty (fst (enqueue_thread ty q x h)) (snd (enqueue_thread ty q x h))
           = Some (q', Some x))) \<and>
   (is_heap_queue ty \<and> qsize q = 0 \<and> length xs \<le> MAX_QUEUE \<and>
    (\<forall>x\<in>set xs. status (h x) \<noteq> TOBE_REMOVED) \<longrightarrow>
    (\<exists>ys. drain_all ty (fst (enqueue_all ty xs q h)) (snd (enqueue_all ty xs q h)) = Some ys \<and>
          mset ys = mset xs \<and> sorted (map (\<lambda>p. queue_key ty (h p)) ys)))"
proof (intro conjI impI)
  assume "\<not> is_heap_queue ty \<and> qsize q = 0 \<and> head q = tail q \<and> tail q < MAX_QUEUE \<and>
    (ty = EXITED_QUEUE \<longrightarrow> status (h x) \<noteq> TOBE_REMOVED)"
  then show "\<exists>q'. dequeue_thread ty (fst (enqueue_thread ty q x h)) (snd (enqueue_thread ty q x h))
           = Some (q', Some x)"
    using ring_round_trip [of ty q h x] by simp
next
  assume a: "is_heap_queue ty \<and> qsize q = 0 \<and> length xs \<le> MAX_QUEUE \<and>
    (\<forall>x\<in>set xs. status (h x) \<noteq> TOBE_REMOVED)"
  define q1 where "q1 = fst (enqueue_all ty xs q h)"
  define h1 where "h1 = snd (enqueue_all ty xs q h)"
  have hq: "is_heap_queue ty" using a by simp
  have "heap_ok (\<lambda>p. queue_key ty (h p)) (threads q) (qsize q)" using a by (simp add: heap_ok_def)
  moreover have "qsize q + length xs \<le> MAX_QUEUE" using a by simp
  ultimately have f: "heap_ok (\<lambda>p. queue_key ty (h p)) (threads q1) (qsize q1)"
      "mset (live q1) = mset (live q) + mset xs"
      "\<And>p. queue_key ty (h1 p) = queue_key ty (h p)"
      "\<And>p. status (h1 p) = status (h p)"
    using enqueue_all_heap [OF hq, of q xs h] by (simp_all add: q1_def h1_def)
  have k: "(\<lambda>p. queue_key ty (h1 p)) = (\<lambda>p. queue_key ty (h p))" using f(3) by (intro ext)
  have lv: "mset (live q1) = mset xs" using f(2) a by (simp add: live_def)
  then have "set (live q1) = set xs" by (rule mset_eq_setD)
  then have "\<forall>p\<in>set (live q1). status (h1 p) \<noteq> TOBE_REMOVED" using a f(4) by simp
  then obtain ys where ys: "drain_all ty q1 h1 = Some ys" "mset ys = mset (live q1)"
      "sorted (map (\<lambda>p. queue_key ty (h1 p)) ys)"
    using drain_all_heap [OF hq, of h1 q1] f(1) unfolding k by blast
  have "sorted (map (\<lambda>p. queue_key ty (h p)) ys)" using ys(3) unfolding k .
  moreover have "mset ys = mset xs" using ys(2) lv by simp
  ultimately show "\<exists>ys. drain_all ty (fst (enqueue_all ty xs q h)) (snd (enqueue_all ty xs q h)) = Some ys \<and>
          mset ys = mset xs \<and> sorted (map (\<lambda>p. queue_key ty (h p)) ys)"
    using ys(1) unfolding q1_def h1_def by blast
qed

text \<open>The theorem at the exited queue and at three descriptors put into runnable.\<close>

theorem queue_round_trip_witness:
  "(\<exists>q'. dequeue_thread EXITED_QUEUE (fst (enqueue_thread EXITED_QUEUE (mk_queue []) 1 ex_store))
            (snd (enqueue_thread EXITED_QUEUE (mk_queue []) 1 ex_store)) = Some (q', Some 1)) \<and>
   (\<exists>ys. drain_all RUNNABLE_QUEUE (fst (enqueue_all RUNNABLE_QUEUE [1, 3, 4] (mk_queue []) ex_store))
            (snd (enqueue_all RUNNABLE_QUEUE [1, 3, 4] (mk_queue []) ex_store)) = Some ys \<and>
         mset ys = mset [1, 3, 4] \<and> sorted (map (\<lambda>p. queue_key RUNNABLE_QUEUE (ex_store p)) ys))"
  using queue_round_trip [of EXITED_QUEUE "mk_queue []" ex_store 1 "[]"]
        queue_round_trip [of RUNNABLE_QUEUE "mk_queue []" ex_store 1 "[1, 3, 4]"]
  by (simp add: is_heap_queue_def mk_queue_def ex_store_def mk_thread_def MAX_QUEUE_def)

text \<open>
  The claim as the specification states it fails for a descriptor with status
  ToBeRemoved: enqueued into the empty exited queue, the dequeue returns null, and
  enqueued into the empty runnable queue, draining yields nothing.
\<close>

theorem queue_round_trip_counterexample:
  "status (ex_store 2) = TOBE_REMOVED \<and>
   map_option snd (dequeue_thread EXITED_QUEUE (fst (enqueue_thread EXITED_QUEUE (mk_queue []) 2 ex_store))
      (snd (enqueue_thread EXITED_QUEUE (mk_queue []) 2 ex_store))) = Some None \<and>
   drain_all RUNNABLE_QUEUE (fst (enqueue_all RUNNABLE_QUEUE [2] (mk_queue []) ex_store))
      (snd (enqueue_all RUNNABLE_QUEUE [2] (mk_queue []) ex_store)) = Some []"
  by code_simp

subsection \<open>What the dispatcher leaves unchanged\<close>

lemma store_frame_refl [simp]: "store_frame h h"
  by (simp add: store_frame_def)

lemma store_frame_trans: "store_frame h1 h2 \<Longrightarrow> store_frame h2 h3 \<Longrightarrow> store_frame h1 h3"
  unfolding store_frame_def by metis

lemma heap_set_timer [simp]: "heap (set_timer ct e sl s) = heap s"
  by (simp add: set_timer_def cur_time_def Let_def split: option.split)

lemma runnable_set_timer [simp]: "runnable (set_timer ct e sl s) = runnable s"
  by (simp add: set_timer_def cur_time_def Let_def split: option.split)

lemma pending_set_timer [simp]: "pending (set_timer ct e sl s) = pending s"
  by (simp add: set_timer_def cur_time_def Let_def split: option.split)

lemma aperiodic_set_timer [simp]: "aperiodic (set_timer ct e sl s) = aperiodic s"
  by (simp add: set_timer_def cur_time_def Let_def split: option.split)

lemma enqueue_heap_store_cases:
  "snd (enqueue_heap key ty q t h) = h \<or> snd (enqueue_heap key ty q t h) = h(t := (h t)\<lparr>q_type := ty\<rparr>)"
  by (simp add: enqueue_heap_def Let_def)

lemma store_frame_q_type: "store_frame h (h(t := (h t)\<lparr>q_type := ty\<rparr>))"
  by (simp add: store_frame_def)

lemma store_frame_enqueue_heap: "store_frame h (snd (enqueue_heap key ty q t h))"
  using enqueue_heap_store_cases [of key ty q t h] store_frame_q_type [of h t ty] by auto

lemma store_frame_enqueue_runnable: "store_frame (heap s) (heap (enqueue_runnable t s))"
  by (simp add: enqueue_runnable_def Let_def enqueue_thread_def store_frame_enqueue_heap)

lemma store_frame_enqueue_pending: "store_frame (heap s) (heap (enqueue_pending t s))"
  by (simp add: enqueue_pending_def Let_def enqueue_thread_def store_frame_enqueue_heap)

lemma store_frame_enqueue_aperiodic: "store_frame (heap s) (heap (enqueue_aperiodic t s))"
  by (simp add: enqueue_aperiodic_def Let_def enqueue_thread_def store_frame_enqueue_heap)

lemma store_frame_update_periodic: "store_frame (heap s) (heap (update_periodic t s))"
  by (simp add: update_periodic_def cur_time_def Let_def store_frame_def)

lemma drain_pending_stop:
  "\<not> (0 < qsize (pending s) \<and> deadline (heap s (threads (pending s) 0)) < e) \<Longrightarrow>
   drain_pending e s = Some s"
  by (subst drain_pending.simps) auto

lemma drain_pending_step:
  "0 < qsize (pending s) \<Longrightarrow> deadline (heap s (threads (pending s) 0)) < e \<Longrightarrow>
   drain_pending e s =
    (case snd (dequeue_heap deadline (pending s) (heap s)) of
       None \<Rightarrow> drain_pending e (s\<lparr>pending := fst (dequeue_heap deadline (pending s) (heap s))\<rparr>)
     | Some a \<Rightarrow>
         drain_pending e
           (enqueue_runnable a
             (update_periodic a (s\<lparr>pending := fst (dequeue_heap deadline (pending s) (heap s))\<rparr>))))"
  by (subst drain_pending.simps) (simp add: dequeue_thread_def)

lemma drain_pending_frame:
  "\<exists>s'. drain_pending e s = Some s' \<and> store_frame (heap s) (heap s') \<and>
        cur_thread s' = cur_thread s \<and>
        (qsize (pending s') = 0 \<or> e \<le> deadline (heap s' (threads (pending s') 0)))"
proof (induction "qsize (pending s)" arbitrary: s rule: less_induct)
  case less
  show ?case
  proof (cases "0 < qsize (pending s) \<and> deadline (heap s (threads (pending s) 0)) < e")
    case False
    then show ?thesis by (auto simp: drain_pending_stop)
  next
    case True
    define r where "r = dequeue_heap deadline (pending s) (heap s)"
    have sz: "qsize (fst r) < qsize (pending s)"
      using True by (simp add: r_def qsize_dequeue_heap_less)
    show ?thesis
    proof (cases "snd r")
      case None
      let ?s = "s\<lparr>pending := fst r\<rparr>"
      have "qsize (pending ?s) < qsize (pending s)" using sz by simp
      from less [OF this] obtain s' where "drain_pending e ?s = Some s'"
        "store_frame (heap ?s) (heap s')" "cur_thread s' = cur_thread ?s"
        "qsize (pending s') = 0 \<or> e \<le> deadline (heap s' (threads (pending s') 0))" by blast
      then show ?thesis
        using True None by (simp add: drain_pending_step r_def [symmetric])
    next
      case (Some a)
      let ?s = "enqueue_runnable a (update_periodic a (s\<lparr>pending := fst r\<rparr>))"
      have "qsize (pending ?s) < qsize (pending s)" using sz by simp
      from less [OF this] obtain s' where s': "drain_pending e ?s = Some s'"
        "store_frame (heap ?s) (heap s')" "cur_thread s' = cur_thread ?s"
        "qsize (pending s') = 0 \<or> e \<le> deadline (heap s' (threads (pending s') 0))" by blast
      have "store_frame (heap s) (heap ?s)"
        using store_frame_trans
          [OF store_frame_update_periodic [where s="s\<lparr>pending := fst r\<rparr>" and t=a]
              store_frame_enqueue_runnable [where s="update_periodic a (s\<lparr>pending := fst r\<rparr>)" and t=a]]
        by simp
      then have "store_frame (heap s) (heap s')" using s'(2) store_frame_trans by blast
      moreover have "cur_thread ?s = cur_thread s"
        by (simp add: enqueue_runnable_def update_periodic_def cur_time_def Let_def)
      ultimately show ?thesis
        using True Some s' by (simp add: drain_pending_step r_def [symmetric])
    qed
  qed
qed

lemma pick_next_unfold:
  "pick_next e sl s =
    (let r = (if 0 < qsize (runnable s) then dequeue_heap deadline (runnable s) (heap s)
              else (runnable s, None))
     in case snd r of
          Some n \<Rightarrow> Some (Inr (set_timer (Some n) e sl (s\<lparr>runnable := fst r\<rparr>), n))
        | None \<Rightarrow>
            (case snd (dequeue_heap aperiodic_priority (aperiodic s) (heap s)) of
               None \<Rightarrow> Some (Inl Panic)
             | Some n \<Rightarrow>
                 Some (Inr (set_timer (Some n) e sl
                              (s\<lparr>runnable := fst r,
                                 aperiodic := fst (dequeue_heap aperiodic_priority (aperiodic s) (heap s))\<rparr>),
                            n))))"
  by (auto simp: pick_next_def dequeue_thread_def Let_def split: option.split)

lemma dequeue_heap_snd_not_tobe_removed:
  "snd (dequeue_heap key q h) = Some p \<Longrightarrow> status (h p) \<noteq> TOBE_REMOVED"
  using dequeue_heap_not_tobe_removed [of key q h "fst (dequeue_heap key q h)" p]
  by (cases "dequeue_heap key q h") auto

lemma pick_next_result:
  assumes "pick_next e sl s = Some (Inr (s', n))"
  shows "heap s' = heap s \<and> status (heap s n) \<noteq> TOBE_REMOVED \<and> cur_thread s' = cur_thread s"
proof -
  define r where "r = (if 0 < qsize (runnable s) then dequeue_heap deadline (runnable s) (heap s)
              else (runnable s, None))"
  define a where "a = dequeue_heap aperiodic_priority (aperiodic s) (heap s)"
  have ct: "\<And>x y z (t::sys_state). cur_thread (set_timer x y z t) = cur_thread t"
    by (simp add: set_timer_def cur_time_def Let_def split: option.split)
  show ?thesis
  proof (cases "snd r")
    case (Some m)
    then have "status (heap s m) \<noteq> TOBE_REMOVED"
      using dequeue_heap_snd_not_tobe_removed [of deadline "runnable s" "heap s" m]
      by (auto simp: r_def split: if_splits)
    then show ?thesis
      using assms Some ct by (auto simp: pick_next_unfold Let_def r_def [symmetric])
  next
    case None
    show ?thesis
    proof (cases "snd a")
      case n: None
      then show ?thesis
        using assms None by (simp add: pick_next_unfold Let_def r_def [symmetric] a_def [symmetric])
    next
      case (Some m)
      then have "status (heap s m) \<noteq> TOBE_REMOVED"
        using dequeue_heap_snd_not_tobe_removed [of aperiodic_priority "aperiodic s" "heap s" m]
        by (simp add: a_def)
      then show ?thesis
        using assms None Some ct
        by (auto simp: pick_next_unfold Let_def r_def [symmetric] a_def [symmetric])
    qed
  qed
qed

lemma preempt_or_keep_unfold:
  "preempt_or_keep e sl c s =
    (if 0 < qsize (runnable s) \<and> deadline (heap s (threads (runnable s) 0)) < deadline (heap s c)
     then
       (case snd (dequeue_heap deadline (runnable s) (heap s)) of
          Some n \<Rightarrow>
            Some (Inr (set_timer (Some n) e sl
                         (enqueue_runnable c
                            (s\<lparr>runnable := fst (dequeue_heap deadline (runnable s) (heap s))\<rparr>)), n))
        | None \<Rightarrow>
            Some (Inr (set_timer (Some c) e sl
                         (s\<lparr>runnable := fst (dequeue_heap deadline (runnable s) (heap s))\<rparr>), c)))
     else Some (Inr (set_timer (Some c) e sl s, c)))"
  by (auto simp: preempt_or_keep_def dequeue_thread_def split: option.split)

lemma preempt_or_keep_result:
  assumes "preempt_or_keep e sl c s = Some (Inr (s', n))"
  shows "store_frame (heap s) (heap s') \<and> (n = c \<or> status (heap s n) \<noteq> TOBE_REMOVED)"
proof (cases "0 < qsize (runnable s) \<and> deadline (heap s (threads (runnable s) 0)) < deadline (heap s c)")
  case False
  then show ?thesis using assms by (auto simp: preempt_or_keep_unfold)
next
  case True
  define r where "r = dequeue_heap deadline (runnable s) (heap s)"
  show ?thesis
  proof (cases "snd r")
    case None
    then show ?thesis
      using assms True by (auto simp: preempt_or_keep_unfold r_def [symmetric])
  next
    case (Some m)
    then have "status (heap s m) \<noteq> TOBE_REMOVED"
      using dequeue_heap_snd_not_tobe_removed [of deadline "runnable s" "heap s" m]
      by (simp add: r_def)
    moreover have "store_frame (heap s) (heap (enqueue_runnable c (s\<lparr>runnable := fst r\<rparr>)))"
      using store_frame_enqueue_runnable [where s="s\<lparr>runnable := fst r\<rparr>" and t=c] by simp
    ultimately show ?thesis
      using assms True Some by (auto simp: preempt_or_keep_unfold r_def [symmetric])
  qed
qed

lemma heap_resched_entry [simp]: "heap (resched_entry s0) = heap s0"
  by (simp add: resched_entry_def cur_time_def Let_def)

lemma cur_thread_resched_entry [simp]: "cur_thread (resched_entry s0) = cur_thread s0"
  by (simp add: resched_entry_def cur_time_def Let_def)

lemma store_frame_status: "store_frame h h' \<Longrightarrow> status (h' p) = status (h p)"
  by (simp add: store_frame_def)

lemma store_frame_priority:
  "store_frame h (h(c := (h c)\<lparr>constraints := (constraints (h c))\<lparr>priority := v\<rparr>\<rparr>))"
  by (simp add: store_frame_def)

lemma rt_thread_dump_fields [simp]:
  "heap (rt_thread_dump t s) = heap s"
  "runnable (rt_thread_dump t s) = runnable s"
  "pending (rt_thread_dump t s) = pending s"
  "aperiodic (rt_thread_dump t s) = aperiodic s"
  "cur_thread (rt_thread_dump t s) = cur_thread s"
  "rdtsc (rt_thread_dump t s) = rdtsc s"
  by (simp_all add: rt_thread_dump_def cur_time_def)

lemma check_deadlines_fields [simp]:
  "heap (snd (check_deadlines t s)) = heap s"
  "runnable (snd (check_deadlines t s)) = runnable s"
  "pending (snd (check_deadlines t s)) = pending s"
  "aperiodic (snd (check_deadlines t s)) = aperiodic s"
  "cur_thread (snd (check_deadlines t s)) = cur_thread s"
  by (simp_all add: check_deadlines_def)

lemma check_deadlines_met:
  "\<not> deadline (heap s t) < exit_time (heap s t) \<Longrightarrow> check_deadlines t s = (0, s)"
  by (simp add: check_deadlines_def)

lemma check_deadlines_missed:
  "deadline (heap s t) < exit_time (heap s t) \<Longrightarrow> check_deadlines t s = (1, rt_thread_dump t s)"
  by (simp add: check_deadlines_def)

lemma store_frame_periodic_requeue: "store_frame (heap s) (heap (periodic_requeue c s))"
proof -
  define x where "x = snd (check_deadlines c s)"
  have hx: "heap x = heap s" by (simp add: x_def)
  have "store_frame (heap x) (heap (enqueue_runnable c (update_periodic c x)))"
    using store_frame_trans
      [OF store_frame_update_periodic [where s=x and t=c]
          store_frame_enqueue_runnable [where s="update_periodic c x" and t=c]] .
  moreover have "store_frame (heap x) (heap (enqueue_pending c x))"
    using store_frame_enqueue_pending [where s=x and t=c] .
  ultimately show ?thesis
    by (simp add: periodic_requeue_def Let_def x_def [symmetric] hx)
qed

lemma rt_need_resched_result:
  assumes "rt_need_resched s0 = Some (Inr (s', n))"
  shows "store_frame (heap s0) (heap s') \<and>
         (n = cur_thread s0 \<or> status (heap s' n) \<noteq> TOBE_REMOVED)"
proof -
  define e where "e = resched_end_time s0"
  define c where "c = cur_thread s0"
  obtain s where s: "drain_pending e (resched_entry s0) = Some s" "store_frame (heap s0) (heap s)"
    using drain_pending_frame [of e "resched_entry s0"] by auto
  have pn: "store_frame (heap s0) (heap s') \<and> status (heap s' n) \<noteq> TOBE_REMOVED"
    if f: "store_frame (heap s) (heap x)" and p: "pick_next e 0 x = Some (Inr (s', n))" for x
  proof -
    have "heap s' = heap x" "status (heap x n) \<noteq> TOBE_REMOVED" using pick_next_result [OF p] by simp_all
    then show ?thesis using store_frame_trans [OF s(2) f] by simp
  qed
  have pk: "store_frame (heap s0) (heap s') \<and> (n = c \<or> status (heap s' n) \<noteq> TOBE_REMOVED)"
    if p: "preempt_or_keep e 0 c s = Some (Inr (s', n))"
  proof -
    have "store_frame (heap s) (heap s')" "n = c \<or> status (heap s n) \<noteq> TOBE_REMOVED"
      using preempt_or_keep_result [OF p] by simp_all
    then show ?thesis using store_frame_trans [OF s(2)] store_frame_status [of "heap s" "heap s'" n] by auto
  qed
  show ?thesis
  proof (cases "rtype (heap s c)")
    case APERIODIC
    let ?x = "enqueue_aperiodic c
               (s\<lparr>heap := (heap s)(c := (heap s c)\<lparr>constraints := (constraints (heap s c))
                    \<lparr>priority := run_time (heap s c)\<rparr>\<rparr>)\<rparr>)"
    let ?y = "s\<lparr>heap := (heap s)(c := (heap s c)\<lparr>constraints := (constraints (heap s c))
                    \<lparr>priority := run_time (heap s c)\<rparr>\<rparr>)\<rparr>"
    have "store_frame (heap s) (heap ?y)"
      using store_frame_priority [of "heap s" c "run_time (heap s c)"] by simp
    then have "store_frame (heap s) (heap ?x)"
      using store_frame_trans [OF _ store_frame_enqueue_aperiodic [where s="?y" and t=c]] by blast
    moreover have "pick_next e 0 ?x = Some (Inr (s', n))"
      using assms s(1) APERIODIC by (simp add: rt_need_resched_def Let_def e_def c_def)
    ultimately show ?thesis using pn by blast
  next
    case SPORADIC
    show ?thesis
    proof (cases "work (constraints (heap s c)) \<le> run_time (heap s c)")
      case True
      then have "pick_next e 0 (snd (check_deadlines c s)) = Some (Inr (s', n))"
        using assms s(1) SPORADIC by (simp add: rt_need_resched_def Let_def e_def c_def)
      then show ?thesis using pn [of "snd (check_deadlines c s)"] by simp
    next
      case False
      then have "preempt_or_keep e 0 c s = Some (Inr (s', n))"
        using assms s(1) SPORADIC by (simp add: rt_need_resched_def Let_def e_def c_def)
      then show ?thesis using pk by (simp add: c_def)
    qed
  next
    case PERIODIC
    show ?thesis
    proof (cases "slice (constraints (heap s c)) \<le> run_time (heap s c)")
      case True
      then have "pick_next e 0 (periodic_requeue c s) = Some (Inr (s', n))"
        using assms s(1) PERIODIC by (simp add: rt_need_resched_def Let_def e_def c_def)
      then show ?thesis using pn [OF store_frame_periodic_requeue] by simp
    next
      case False
      then have "preempt_or_keep e 0 c s = Some (Inr (s', n))"
        using assms s(1) PERIODIC by (simp add: rt_need_resched_def Let_def e_def c_def)
      then show ?thesis using pk by (simp add: c_def)
    qed
  qed
qed

lemma pick_next_returns: "\<exists>r. pick_next e sl s = Some r"
  by (auto simp: pick_next_unfold Let_def split: option.split)

lemma preempt_or_keep_returns: "\<exists>r. preempt_or_keep e sl c s = Some r"
  by (auto simp: preempt_or_keep_unfold split: option.split)

lemma rt_need_resched_returns: "\<exists>r. rt_need_resched s0 = Some r"
proof -
  obtain s where s: "drain_pending (resched_end_time s0) (resched_entry s0) = Some s"
    using drain_pending_frame [of "resched_end_time s0" "resched_entry s0"] by auto
  show ?thesis
    using pick_next_returns preempt_or_keep_returns
    by (cases "rtype (heap s (cur_thread s0))") (simp_all add: rt_need_resched_def Let_def s)
qed

subsection \<open>Billing\<close>

text \<open>
  C2 (as amended): \<open>rt_need_resched\<close> returns (a thread, or the panic on an empty
  aperiodic queue) and does no billing. Whatever thread it returns, every descriptor has
  the start time and the exit time it had on entry, and a run time is either what it was
  on entry or 0 (the reset of a periodic re-release).
\<close>

theorem rt_need_resched_no_billing:
  "(\<exists>r. rt_need_resched s0 = Some r) \<and>
   (rt_need_resched s0 = Some (Inr (s', n)) \<longrightarrow>
      start_time (heap s' p) = start_time (heap s0 p) \<and>
      exit_time (heap s' p) = exit_time (heap s0 p) \<and>
      (run_time (heap s' p) = run_time (heap s0 p) \<or> run_time (heap s' p) = 0))"
  using rt_need_resched_result [of s0 s' n] rt_need_resched_returns [of s0]
  by (simp add: store_frame_def)

text \<open>The theorem on a state where the periodic thread 3 preempts the current thread 1.\<close>

theorem rt_need_resched_no_billing_witness:
  "\<exists>s'. rt_need_resched (mk_state ex_store [3] [4] [9] 1) = Some (Inr (s', 3)) \<and>
        start_time (heap s' 1) = 10 \<and> exit_time (heap s' 1) = 3 \<and> run_time (heap s' 1) = 0"
proof -
  define S where "S = mk_state ex_store [3] [4] [9] 1"
  have "case rt_need_resched S of Some (Inr (s', n)) \<Rightarrow> n = 3 | _ \<Rightarrow> False"
    unfolding S_def by code_simp
  then obtain s' where r: "rt_need_resched S = Some (Inr (s', 3))"
    by (auto split: option.splits sum.splits)
  have "start_time (heap S 1) = 10" "exit_time (heap S 1) = 3" "run_time (heap S 1) = 0"
    by (simp_all add: S_def mk_state_def ex_store_def mk_thread_def)
  then show ?thesis
    using rt_need_resched_no_billing [of S s' 3 1] r unfolding S_def by auto
qed

text \<open>
  The claim as the specification states it fails: the current thread 1 started at cycle
  10 and the dispatcher is entered at cycle 50 with nothing else to run. It returns
  thread 1 with a run time of 0 (not 40), an exit time of 3 (not 50) and a start time of
  10 (not 50).
\<close>

theorem rt_need_resched_no_billing_counterexample:
  "resched_end_time (mk_state ex_store [] [] [9] 1) = 50 \<and>
   start_time (ex_store 1) = 10 \<and> run_time (ex_store 1) = 0 \<and>
   (case rt_need_resched (mk_state ex_store [] [] [9] 1) of
      Some (Inr (s', n)) \<Rightarrow>
        n = 1 \<and> run_time (heap s' 1) = 0 \<and> exit_time (heap s' 1) = 3 \<and> start_time (heap s' n) = 10
    | _ \<Rightarrow> False)"
  by code_simp

subsection \<open>Descriptors to be removed\<close>

text \<open>
  C7 (as amended): a dequeue on a heap queue whose root has status ToBeRemoved dequeues
  again from the queue without that root; the descriptor that a dequeue on a heap queue
  returns never has status ToBeRemoved; and the thread that the dispatcher returns has
  status ToBeRemoved only if it is the current thread.
\<close>

theorem dequeue_skips_tobe_removed:
  "(is_heap_queue ty \<and> 1 \<le> qsize q \<and> status (h (threads q 0)) = TOBE_REMOVED \<longrightarrow>
      dequeue_thread ty q h = dequeue_thread ty (extract_at (queue_key ty) h q 0) h) \<and>
   (is_heap_queue ty \<and> dequeue_thread ty q h = Some (q', Some p) \<longrightarrow>
      status (h p) \<noteq> TOBE_REMOVED) \<and>
   (rt_need_resched s0 = Some (Inr (s', n)) \<and> n \<noteq> cur_thread s0 \<longrightarrow>
      status (heap s' n) \<noteq> TOBE_REMOVED)"
proof (intro conjI impI)
  assume "is_heap_queue ty \<and> 1 \<le> qsize q \<and> status (h (threads q 0)) = TOBE_REMOVED"
  then show "dequeue_thread ty q h = dequeue_thread ty (extract_at (queue_key ty) h q 0) h"
    using dequeue_heap_skip [of q h "queue_key ty"] by (simp add: dequeue_thread_heap)
next
  assume "is_heap_queue ty \<and> dequeue_thread ty q h = Some (q', Some p)"
  then show "status (h p) \<noteq> TOBE_REMOVED"
    using dequeue_heap_not_tobe_removed [of "queue_key ty" q h q' p]
    by (auto simp: dequeue_thread_heap)
next
  assume "rt_need_resched s0 = Some (Inr (s', n)) \<and> n \<noteq> cur_thread s0"
  then show "status (heap s' n) \<noteq> TOBE_REMOVED"
    using rt_need_resched_result [of s0 s' n] by simp
qed

text \<open>
  The theorem on a runnable queue whose root 2 has status ToBeRemoved, and on a
  reschedule that returns thread 3 in place of the current thread 1.
\<close>

theorem dequeue_skips_tobe_removed_witness:
  "status (ex_store 2) = TOBE_REMOVED \<and>
   dequeue_thread RUNNABLE_QUEUE (mk_queue [2, 3]) ex_store =
     dequeue_thread RUNNABLE_QUEUE (extract_at deadline ex_store (mk_queue [2, 3]) 0) ex_store \<and>
   (\<exists>q'. dequeue_thread RUNNABLE_QUEUE (mk_queue [2, 3]) ex_store = Some (q', Some 3)) \<and>
   status (ex_store 3) \<noteq> TOBE_REMOVED \<and>
   (\<exists>s'. rt_need_resched (mk_state ex_store [3] [4] [9] 1) = Some (Inr (s', 3)) \<and>
         status (heap s' 3) \<noteq> TOBE_REMOVED)"
proof -
  define Q where "Q = mk_queue [2, 3]"
  define S where "S = mk_state ex_store [3] [4] [9] 1"
  have hq: "is_heap_queue RUNNABLE_QUEUE" by (simp add: is_heap_queue_def)
  have k: "queue_key RUNNABLE_QUEUE = deadline" by (simp add: queue_key_def)
  have pre: "1 \<le> qsize Q" "status (ex_store (threads Q 0)) = TOBE_REMOVED"
    by (simp_all add: Q_def mk_queue_def ex_store_def mk_thread_def)
  have "snd (dequeue_heap deadline Q ex_store) = Some 3"
    unfolding Q_def by code_simp
  then have d: "dequeue_thread RUNNABLE_QUEUE Q ex_store =
                 Some (fst (dequeue_heap deadline Q ex_store), Some 3)"
    by (cases "dequeue_heap deadline Q ex_store") (simp add: dequeue_thread_def)
  have "case rt_need_resched S of Some (Inr (s', n)) \<Rightarrow> n = 3 | _ \<Rightarrow> False"
    unfolding S_def by code_simp
  then obtain s' where r: "rt_need_resched S = Some (Inr (s', 3))"
    by (auto split: option.splits sum.splits)
  have c: "cur_thread S = 1" by (simp add: S_def mk_state_def)
  note t = dequeue_skips_tobe_removed
            [of RUNNABLE_QUEUE Q ex_store "fst (dequeue_heap deadline Q ex_store)" 3 S s' 3]
  have 1: "dequeue_thread RUNNABLE_QUEUE Q ex_store =
           dequeue_thread RUNNABLE_QUEUE (extract_at deadline ex_store Q 0) ex_store"
    using t hq k pre by simp
  have 2: "status (ex_store 3) \<noteq> TOBE_REMOVED"
    using t hq d by simp
  have 3: "status (heap s' 3) \<noteq> TOBE_REMOVED"
    using t r c by simp
  have 4: "status (ex_store 2) = TOBE_REMOVED"
    using pre(2) by (simp add: Q_def mk_queue_def)
  show ?thesis
    using 1 2 3 4 d r unfolding Q_def S_def by blast
qed

text \<open>
  The claim as the specification states it fails twice. Entered with the current thread
  2, whose status is ToBeRemoved and whose slice is not used up, the dispatcher returns
  thread 2. And after a reschedule that has dequeued and skipped thread 2 from runnable,
  the status of thread 2 is still ToBeRemoved, not Removed.
\<close>

theorem dequeue_skips_tobe_removed_counterexample:
  "(case rt_need_resched (mk_state ex_store [] [] [9] 2) of
      Some (Inr (s', n)) \<Rightarrow> n = 2 \<and> status (heap s' n) = TOBE_REMOVED
    | _ \<Rightarrow> False) \<and>
   (case rt_need_resched (mk_state ex_store [2] [] [9] 1) of
      Some (Inr (s', n)) \<Rightarrow> qsize (runnable s') = 0 \<and> status (heap s' 2) = TOBE_REMOVED
    | _ \<Rightarrow> False)"
  by code_simp

subsection \<open>Removing a descriptor that is not in the queue\<close>

text \<open>
  C8: the code does not do what the claim says. Descriptor 2 names runnable in its
  \<open>q_type\<close> and is not in runnable, which holds descriptor 3 only. \<open>remove_thread\<close>
  does not return null and does not leave the queue alone: it returns descriptor 3
  and runnable is empty afterwards. For a descriptor that names a ring queue it reads
  through a null pointer.
\<close>

theorem remove_thread_absent_removes_root:
  "q_type (ex_store 2) = RUNNABLE_QUEUE \<and> live (runnable (mk_state ex_store [3] [] [9] 1)) = [3] \<and>
   (case remove_thread 2 (mk_state ex_store [3] [] [9] 1) of
      Inr (s', r) \<Rightarrow> r = Some 3 \<and> live (runnable s') = []
    | Inl e \<Rightarrow> False) \<and>
   (case remove_thread 2
           (mk_state (ex_store(2 := (ex_store 2)\<lparr>q_type := ARRIVAL_QUEUE\<rparr>)) [] [] [9] 1) of
      Inr x \<Rightarrow> False
    | Inl e \<Rightarrow> e = NullDeref)"
  by code_simp

subsection \<open>Re-release and requeueing\<close>

lemma heap_enqueue_runnable_cases:
  "heap (enqueue_runnable t s) = heap s \<or>
   heap (enqueue_runnable t s) = (heap s)(t := (heap s t)\<lparr>q_type := RUNNABLE_QUEUE\<rparr>)"
  using enqueue_heap_store_cases [of deadline RUNNABLE_QUEUE "runnable s" t "heap s"]
  by (simp add: enqueue_runnable_def enqueue_thread_def Let_def)

lemma heap_enqueue_pending_cases:
  "heap (enqueue_pending t s) = heap s \<or>
   heap (enqueue_pending t s) = (heap s)(t := (heap s t)\<lparr>q_type := PENDING_QUEUE\<rparr>)"
  using enqueue_heap_store_cases [of deadline PENDING_QUEUE "pending s" t "heap s"]
  by (simp add: enqueue_pending_def enqueue_thread_def Let_def)

lemma enqueue_runnable_times:
  "deadline (heap (enqueue_runnable t s) p) = deadline (heap s p) \<and>
   run_time (heap (enqueue_runnable t s) p) = run_time (heap s p)"
  using heap_enqueue_runnable_cases [of t s] by auto

lemma enqueue_pending_times:
  "deadline (heap (enqueue_pending t s) p) = deadline (heap s p) \<and>
   run_time (heap (enqueue_pending t s) p) = run_time (heap s p)"
  using heap_enqueue_pending_cases [of t s] by auto

lemma enqueue_runnable_live:
  "qsize (runnable s) < MAX_QUEUE \<Longrightarrow>
   mset (live (runnable (enqueue_runnable t s))) = add_mset t (mset (live (runnable s)))"
  using enqueue_heap_live [of "runnable s" deadline RUNNABLE_QUEUE t "heap s"]
  by (simp add: enqueue_runnable_def enqueue_thread_def Let_def)

lemma enqueue_pending_live:
  "qsize (pending s) < MAX_QUEUE \<Longrightarrow>
   mset (live (pending (enqueue_pending t s))) = add_mset t (mset (live (pending s)))"
  using enqueue_heap_live [of "pending s" deadline PENDING_QUEUE t "heap s"]
  by (simp add: enqueue_pending_def enqueue_thread_def Let_def)

lemma runnable_enqueue_pending [simp]: "runnable (enqueue_pending t s) = runnable s"
  by (simp add: enqueue_pending_def Let_def)

lemma runnable_update_periodic [simp]: "runnable (update_periodic t s) = runnable s"
  by (simp add: update_periodic_def cur_time_def Let_def)

lemma update_periodic_release:
  "rtype (heap s t) = PERIODIC \<Longrightarrow>
   deadline (heap (update_periodic t s) t) = fst (cur_time s) + period (constraints (heap s t)) \<and>
   run_time (heap (update_periodic t s) t) = 0"
  by (simp add: update_periodic_def cur_time_def Let_def)

lemma enqueue_runnable_full:
  "qsize (runnable s) = MAX_QUEUE \<Longrightarrow> runnable (enqueue_runnable t s) = runnable s"
  by (simp add: enqueue_runnable_def enqueue_thread_def enqueue_heap_full)

lemma enqueue_pending_full:
  "qsize (pending s) = MAX_QUEUE \<Longrightarrow> pending (enqueue_pending t s) = pending s"
  by (simp add: enqueue_pending_def enqueue_thread_def enqueue_heap_full)

lemma reads_enqueue_runnable [simp]: "reads (enqueue_runnable t s) = reads s"
  by (simp add: enqueue_runnable_def Let_def)

lemma reads_enqueue_pending [simp]: "reads (enqueue_pending t s) = reads s"
  by (simp add: enqueue_pending_def Let_def)

subsection \<open>The release loop\<close>





subsection \<open>A periodic thread whose slice is used up\<close>

lemma rt_need_resched_periodic_done:
  assumes "drain_pending (resched_end_time s0) (resched_entry s0) = Some s"
    and "rtype (heap s (cur_thread s0)) = PERIODIC"
    and "slice (constraints (heap s (cur_thread s0))) \<le> run_time (heap s (cur_thread s0))"
  shows "rt_need_resched s0 =
         pick_next (resched_end_time s0) 0 (periodic_requeue (cur_thread s0) s)"
  using assms by (simp add: rt_need_resched_def Let_def)

lemma rt_need_resched_budget_left:
  assumes "drain_pending (resched_end_time s0) (resched_entry s0) = Some s"
    and "(rtype (heap s (cur_thread s0)) = PERIODIC \<and>
          run_time (heap s (cur_thread s0)) < slice (constraints (heap s (cur_thread s0)))) \<or>
         (rtype (heap s (cur_thread s0)) = SPORADIC \<and>
          run_time (heap s (cur_thread s0)) < work (constraints (heap s (cur_thread s0))))"
  shows "rt_need_resched s0 = preempt_or_keep (resched_end_time s0) 0 (cur_thread s0) s"
  using assms by (auto simp: rt_need_resched_def Let_def not_le)

text \<open>
  C1 (as amended): for a periodic current thread whose run time has reached its slice,
  the dispatcher requeues the thread and then selects the next one. When the deadline
  was missed (exit time after the deadline) the report of the miss reads the cycle
  counter once; then the thread is re-released (run time 0, deadline the next reading of
  the cycle counter plus the period) and put onto runnable. When the deadline was met
  the thread is put onto pending with its deadline and run time unchanged, and the
  counter is not read. Either enqueue takes place when the queue holds fewer than
  \<open>MAX_QUEUE\<close> descriptors; when it holds \<open>MAX_QUEUE\<close> the queue stays as it is and the
  thread is on neither queue. \<open>s\<close> is the state after the release loop.
\<close>

theorem periodic_slice_consumed:
  assumes "drain_pending (resched_end_time s0) (resched_entry s0) = Some s"
    and "c = cur_thread s0"
    and "rtype (heap s c) = PERIODIC"
    and "slice (constraints (heap s c)) \<le> run_time (heap s c)"
    and "s1 = periodic_requeue c s"
  shows "rt_need_resched s0 = pick_next (resched_end_time s0) 0 s1 \<and>
         (deadline (heap s c) < exit_time (heap s c) \<longrightarrow>
            run_time (heap s1 c) = 0 \<and>
            deadline (heap s1 c) =
              fst (cur_time (rt_thread_dump c s)) + period (constraints (heap s c)) \<and>
            rt_thread_dump c s = snd (cur_time s) \<and>
            reads s1 = reads s + 2 \<and>
            pending s1 = pending s \<and>
            (qsize (runnable s) < MAX_QUEUE \<longrightarrow>
               mset (live (runnable s1)) = add_mset c (mset (live (runnable s)))) \<and>
            (qsize (runnable s) = MAX_QUEUE \<longrightarrow> runnable s1 = runnable s)) \<and>
         (exit_time (heap s c) \<le> deadline (heap s c) \<longrightarrow>
            run_time (heap s1 c) = run_time (heap s c) \<and>
            deadline (heap s1 c) = deadline (heap s c) \<and>
            reads s1 = reads s \<and>
            runnable s1 = runnable s \<and>
            (qsize (pending s) < MAX_QUEUE \<longrightarrow>
               mset (live (pending s1)) = add_mset c (mset (live (pending s)))) \<and>
            (qsize (pending s) = MAX_QUEUE \<longrightarrow> pending s1 = pending s))"
proof (intro conjI impI)
  show "rt_need_resched s0 = pick_next (resched_end_time s0) 0 s1"
    using rt_need_resched_periodic_done [of s0 s] assms by simp
next
  assume m: "deadline (heap s c) < exit_time (heap s c)"
  define d where "d = rt_thread_dump c s"
  have d: "heap d = heap s" "runnable d = runnable s" "pending d = pending s"
    by (simp_all add: d_def)
  have s1: "s1 = enqueue_runnable c (update_periodic c d)"
    using m by (simp add: assms(5) periodic_requeue_def check_deadlines_missed d_def)
  have rel: "deadline (heap (update_periodic c d) c) = fst (cur_time d) + period (constraints (heap s c))"
            "run_time (heap (update_periodic c d) c) = 0"
    using update_periodic_release [of d c] assms(3) d(1) by simp_all
  show "run_time (heap s1 c) = 0"
    using rel enqueue_runnable_times [of c "update_periodic c d" c] by (simp add: s1)
  show "deadline (heap s1 c) =
          fst (cur_time (rt_thread_dump c s)) + period (constraints (heap s c))"
    using rel enqueue_runnable_times [of c "update_periodic c d" c] by (simp add: s1 d_def)
  show "rt_thread_dump c s = snd (cur_time s)"
    using assms(3) by (simp add: rt_thread_dump_def)
  show "reads s1 = reads s + 2"
    using assms(3) by (simp add: s1 d_def update_periodic_def rt_thread_dump_def cur_time_def Let_def)
  show "pending s1 = pending s" by (simp add: s1 d)
  {
    assume "qsize (runnable s) < MAX_QUEUE"
    then show "mset (live (runnable s1)) = add_mset c (mset (live (runnable s)))"
      using enqueue_runnable_live [of "update_periodic c d" c] by (simp add: s1 d)
  }
  {
    assume "qsize (runnable s) = MAX_QUEUE"
    then show "runnable s1 = runnable s"
      using enqueue_runnable_full [of "update_periodic c d" c] by (simp add: s1 d)
  }
next
  assume m: "exit_time (heap s c) \<le> deadline (heap s c)"
  then have s1: "s1 = enqueue_pending c s"
    by (simp add: assms(5) periodic_requeue_def check_deadlines_met not_less)
  show "run_time (heap s1 c) = run_time (heap s c)"
    using enqueue_pending_times [of c s c] by (simp add: s1)
  show "deadline (heap s1 c) = deadline (heap s c)"
    using enqueue_pending_times [of c s c] by (simp add: s1)
  show "reads s1 = reads s" by (simp add: s1)
  show "runnable s1 = runnable s" by (simp add: s1)
  {
    assume "qsize (pending s) < MAX_QUEUE"
    then show "mset (live (pending s1)) = add_mset c (mset (live (pending s)))"
      using enqueue_pending_live [of s c] by (simp add: s1)
  }
  {
    assume "qsize (pending s) = MAX_QUEUE"
    then show "pending s1 = pending s"
      using enqueue_pending_full [of s c] by (simp add: s1)
  }
qed

text \<open>
  The theorem on a reschedule of thread 7, which missed its deadline (exit time 3,
  deadline 2), on a reschedule of thread 6, which met it (deadline 500), and on a
  reschedule of thread 7 when runnable already holds \<open>MAX_QUEUE\<close> descriptors. The
  counter gives 50 and 51 to the entry of the dispatcher, 52 to the report of the miss
  and 53 to the re-release.
\<close>

theorem periodic_slice_consumed_witness:
  "run_time (heap (periodic_requeue 7 (resched_entry (mk_state ex_store [] [] [9] 7))) 7) = 0 \<and>
   deadline (heap (periodic_requeue 7 (resched_entry (mk_state ex_store [] [] [9] 7))) 7) = 1053 \<and>
   reads (periodic_requeue 7 (resched_entry (mk_state ex_store [] [] [9] 7))) = 4 \<and>
   mset (live (runnable (periodic_requeue 7 (resched_entry (mk_state ex_store [] [] [9] 7))))) = {#7#} \<and>
   deadline (heap (periodic_requeue 6 (resched_entry (mk_state ex_store [] [] [9] 6))) 6) = 500 \<and>
   reads (periodic_requeue 6 (resched_entry (mk_state ex_store [] [] [9] 6))) = 2 \<and>
   mset (live (pending (periodic_requeue 6 (resched_entry (mk_state ex_store [] [] [9] 6))))) = {#6#} \<and>
   runnable (periodic_requeue 7 (resched_entry (mk_state ex_store (replicate 256 3) [] [9] 7))) =
     mk_queue (replicate 256 3)"
proof -
  define A where "A = mk_state ex_store [] [] [9] 7"
  define B where "B = mk_state ex_store [] [] [9] 6"
  define C where "C = mk_state ex_store (replicate 256 3) [] [9] 7"
  have A: "heap (resched_entry A) = ex_store" "cur_thread A = 7"
      "qsize (pending (resched_entry A)) = 0" "qsize (runnable (resched_entry A)) = 0"
      "fst (cur_time (rt_thread_dump 7 (resched_entry A))) = 53" "reads (resched_entry A) = 2"
    by (simp_all add: A_def resched_entry_def mk_state_def mk_queue_def cur_time_def Let_def
        rt_thread_dump_def ex_store_def mk_thread_def)
  have B: "heap (resched_entry B) = ex_store" "cur_thread B = 6"
      "qsize (pending (resched_entry B)) = 0" "qsize (runnable (resched_entry B)) = 0"
      "reads (resched_entry B) = 2"
    by (simp_all add: B_def resched_entry_def mk_state_def mk_queue_def cur_time_def Let_def)
  have C: "heap (resched_entry C) = ex_store" "cur_thread C = 7"
      "qsize (pending (resched_entry C)) = 0" "qsize (runnable (resched_entry C)) = MAX_QUEUE"
      "runnable (resched_entry C) = mk_queue (replicate 256 3)"
    by (simp_all add: C_def resched_entry_def mk_state_def mk_queue_def cur_time_def Let_def
        MAX_QUEUE_def)
  have dA: "drain_pending (resched_end_time A) (resched_entry A) = Some (resched_entry A)"
    using A by (simp add: drain_pending_stop)
  have dB: "drain_pending (resched_end_time B) (resched_entry B) = Some (resched_entry B)"
    using B by (simp add: drain_pending_stop)
  have dC: "drain_pending (resched_end_time C) (resched_entry C) = Some (resched_entry C)"
    using C by (simp add: drain_pending_stop)
  have g: "rtype (ex_store 7) = PERIODIC" "slice (constraints (ex_store 7)) \<le> run_time (ex_store 7)"
      "deadline (ex_store 7) < exit_time (ex_store 7)" "period (constraints (ex_store 7)) = 1000"
      "rtype (ex_store 6) = PERIODIC" "slice (constraints (ex_store 6)) \<le> run_time (ex_store 6)"
      "exit_time (ex_store 6) \<le> deadline (ex_store 6)" "deadline (ex_store 6) = 500"
    by (simp_all add: ex_store_def mk_thread_def)
  note a = periodic_slice_consumed [OF dA, of 7 "periodic_requeue 7 (resched_entry A)"]
  note b = periodic_slice_consumed [OF dB, of 6 "periodic_requeue 6 (resched_entry B)"]
  note c = periodic_slice_consumed [OF dC, of 7 "periodic_requeue 7 (resched_entry C)"]
  have "run_time (heap (periodic_requeue 7 (resched_entry A)) 7) = 0 \<and>
        deadline (heap (periodic_requeue 7 (resched_entry A)) 7) = 1053 \<and>
        reads (periodic_requeue 7 (resched_entry A)) = 4 \<and>
        mset (live (runnable (periodic_requeue 7 (resched_entry A)))) = {#7#}"
    using a A g by (simp add: MAX_QUEUE_def live_def)
  moreover have "deadline (heap (periodic_requeue 6 (resched_entry B)) 6) = 500 \<and>
        reads (periodic_requeue 6 (resched_entry B)) = 2 \<and>
        mset (live (pending (periodic_requeue 6 (resched_entry B)))) = {#6#}"
    using b B g by (simp add: MAX_QUEUE_def live_def)
  moreover have "runnable (periodic_requeue 7 (resched_entry C)) = mk_queue (replicate 256 3)"
    using c C g by simp
  ultimately show ?thesis
    unfolding A_def B_def C_def by simp
qed

text \<open>
  The claim as the specification states it fails in both directions. Thread 6 has used
  up its slice and met its deadline: the dispatcher puts it onto pending with its
  deadline and run time as they were, and returns the aperiodic thread 9. Thread 7 has
  used up its slice and missed its deadline: the dispatcher re-releases it with the new
  deadline 1053, and returns it from runnable.
\<close>

theorem periodic_slice_consumed_counterexample:
  "slice (constraints (ex_store 6)) \<le> run_time (ex_store 6) \<and>
   exit_time (ex_store 6) \<le> deadline (ex_store 6) \<and>
   (case rt_need_resched (mk_state ex_store [] [] [9] 6) of
      Some (Inr (s', n)) \<Rightarrow>
        n = 9 \<and> live (pending s') = [6] \<and> live (runnable s') = [] \<and>
        deadline (heap s' 6) = 500 \<and> run_time (heap s' 6) = 100
    | _ \<Rightarrow> False) \<and>
   slice (constraints (ex_store 7)) \<le> run_time (ex_store 7) \<and>
   deadline (ex_store 7) < exit_time (ex_store 7) \<and>
   (case rt_need_resched (mk_state ex_store [] [] [9] 7) of
      Some (Inr (s', n)) \<Rightarrow>
        n = 7 \<and> live (pending s') = [] \<and> deadline (heap s' 7) = 1053 \<and> run_time (heap s' 7) = 0 \<and>
        reads s' = 5 \<and> tsc_start_time s' = 54
    | _ \<Rightarrow> False)"
  by code_simp

subsection \<open>A current thread with budget left\<close>

text \<open>
  C3 (as amended): for a periodic or sporadic current thread whose budget is not used
  up, with \<open>s\<close> the state after the release loop. If runnable is empty or the deadline
  of its root is not before the deadline of the current thread, the dispatcher returns
  the current thread and leaves runnable as it is. If runnable is not empty and the
  deadline of its root is before the deadline of the current thread, the dispatcher
  calls the dequeue on runnable, which takes off the root and, as long as the descriptor
  it took off is to be removed, the next root; the descriptors to be removed are
  dropped. If the dequeue gives a descriptor, the dispatcher puts the current thread
  onto runnable and returns that descriptor: it is the root when the root is not to be
  removed, and otherwise another descriptor of runnable, returned whatever its deadline.
  If the dequeue gives no descriptor, every descriptor of runnable was to be removed,
  runnable is empty afterwards, and the dispatcher returns the current thread.
\<close>

theorem preempt_by_earlier_deadline:
  assumes "drain_pending (resched_end_time s0) (resched_entry s0) = Some s"
    and "c = cur_thread s0"
    and "(rtype (heap s c) = PERIODIC \<and> run_time (heap s c) < slice (constraints (heap s c))) \<or>
         (rtype (heap s c) = SPORADIC \<and> run_time (heap s c) < work (constraints (heap s c)))"
    and "root_t = threads (runnable s) 0"
    and "r = dequeue_heap deadline (runnable s) (heap s)"
  shows "(0 < qsize (runnable s) \<and> deadline (heap s root_t) < deadline (heap s c) \<longrightarrow>
            dequeue_thread RUNNABLE_QUEUE (runnable s) (heap s) = Some r \<and>
            (status (heap s root_t) \<noteq> TOBE_REMOVED \<longrightarrow>
               r = (extract_at deadline (heap s) (runnable s) 0, Some root_t) \<and>
               mset (live (runnable s)) = add_mset root_t (mset (live (fst r)))) \<and>
            (status (heap s root_t) = TOBE_REMOVED \<longrightarrow>
               r = dequeue_heap deadline (extract_at deadline (heap s) (runnable s) 0) (heap s)) \<and>
            (\<exists>ds. mset (live (runnable s)) =
                    mset (live (fst r)) + ds + (case snd r of None \<Rightarrow> {#} | Some n \<Rightarrow> {#n#}) \<and>
                  (\<forall>d\<in>#ds. status (heap s d) = TOBE_REMOVED)) \<and>
            (\<forall>n. snd r = Some n \<longrightarrow>
               status (heap s n) \<noteq> TOBE_REMOVED \<and>
               rt_need_resched s0 =
                 Some (Inr (set_timer (Some n) (resched_end_time s0) 0
                              (enqueue_runnable c (s\<lparr>runnable := fst r\<rparr>)), n)) \<and>
               (qsize (runnable s) \<le> MAX_QUEUE \<longrightarrow>
                  mset (live (runnable (enqueue_runnable c (s\<lparr>runnable := fst r\<rparr>)))) =
                  add_mset c (mset (live (fst r))))) \<and>
            (snd r = None \<longrightarrow>
               rt_need_resched s0 =
                 Some (Inr (set_timer (Some c) (resched_end_time s0) 0 (s\<lparr>runnable := fst r\<rparr>), c)) \<and>
               qsize (fst r) = 0 \<and>
               (\<forall>p\<in>set (live (runnable s)). status (heap s p) = TOBE_REMOVED))) \<and>
         (0 < qsize (runnable s) \<and> deadline (heap s root_t) < deadline (heap s c) \<and>
          status (heap s root_t) \<noteq> TOBE_REMOVED \<and> qsize (runnable s) \<le> MAX_QUEUE \<longrightarrow>
            (\<exists>s'. rt_need_resched s0 = Some (Inr (s', root_t)) \<and>
                  add_mset root_t (mset (live (runnable s'))) = add_mset c (mset (live (runnable s))))) \<and>
         (\<not> (0 < qsize (runnable s) \<and> deadline (heap s root_t) < deadline (heap s c)) \<longrightarrow>
            rt_need_resched s0 = Some (Inr (set_timer (Some c) (resched_end_time s0) 0 s, c)) \<and>
            (\<exists>s'. rt_need_resched s0 = Some (Inr (s', c)) \<and> runnable s' = runnable s))"
proof -
  let ?e = "resched_end_time s0"
  let ?q = "extract_at deadline (heap s) (runnable s) 0"
  have rr: "rt_need_resched s0 = preempt_or_keep ?e 0 c s"
    using rt_need_resched_budget_left [of s0 s] assms(1,2,3) by simp
  have keep: "rt_need_resched s0 = Some (Inr (set_timer (Some c) ?e 0 s, c)) \<and>
              (\<exists>s'. rt_need_resched s0 = Some (Inr (s', c)) \<and> runnable s' = runnable s)"
    if "\<not> (0 < qsize (runnable s) \<and> deadline (heap s root_t) < deadline (heap s c))"
  proof -
    have "rt_need_resched s0 = Some (Inr (set_timer (Some c) ?e 0 s, c))"
      using that assms(4) by (auto simp: rr preempt_or_keep_unfold)
    then show ?thesis by simp
  qed
  have c0: "dequeue_thread RUNNABLE_QUEUE (runnable s) (heap s) = Some r"
    by (simp add: dequeue_thread_def assms(5))
  have c3: "\<exists>ds. mset (live (runnable s)) =
                    mset (live (fst r)) + ds + (case snd r of None \<Rightarrow> {#} | Some n \<Rightarrow> {#n#}) \<and>
                  (\<forall>d\<in>#ds. status (heap s d) = TOBE_REMOVED)"
    using dequeue_heap_account [of "runnable s" deadline "heap s"] unfolding assms(5) .
  have go: "dequeue_thread RUNNABLE_QUEUE (runnable s) (heap s) = Some r \<and>
            (status (heap s root_t) \<noteq> TOBE_REMOVED \<longrightarrow>
               r = (?q, Some root_t) \<and>
               mset (live (runnable s)) = add_mset root_t (mset (live (fst r)))) \<and>
            (status (heap s root_t) = TOBE_REMOVED \<longrightarrow> r = dequeue_heap deadline ?q (heap s)) \<and>
            (\<exists>ds. mset (live (runnable s)) =
                    mset (live (fst r)) + ds + (case snd r of None \<Rightarrow> {#} | Some n \<Rightarrow> {#n#}) \<and>
                  (\<forall>d\<in>#ds. status (heap s d) = TOBE_REMOVED)) \<and>
            (\<forall>n. snd r = Some n \<longrightarrow>
               status (heap s n) \<noteq> TOBE_REMOVED \<and>
               rt_need_resched s0 =
                 Some (Inr (set_timer (Some n) ?e 0 (enqueue_runnable c (s\<lparr>runnable := fst r\<rparr>)), n)) \<and>
               (qsize (runnable s) \<le> MAX_QUEUE \<longrightarrow>
                  mset (live (runnable (enqueue_runnable c (s\<lparr>runnable := fst r\<rparr>)))) =
                  add_mset c (mset (live (fst r))))) \<and>
            (snd r = None \<longrightarrow>
               rt_need_resched s0 = Some (Inr (set_timer (Some c) ?e 0 (s\<lparr>runnable := fst r\<rparr>), c)) \<and>
               qsize (fst r) = 0 \<and>
               (\<forall>p\<in>set (live (runnable s)). status (heap s p) = TOBE_REMOVED))"
    if a: "0 < qsize (runnable s) \<and> deadline (heap s root_t) < deadline (heap s c)"
  proof -
    have ge: "1 \<le> qsize (runnable s)" using a by simp
    have a': "0 < qsize (runnable s) \<and>
              deadline (heap s (threads (runnable s) 0)) < deadline (heap s c)"
      using a by (simp add: assms(4))
    have d1: "status (heap s root_t) \<noteq> TOBE_REMOVED \<longrightarrow>
               r = (?q, Some root_t) \<and>
               mset (live (runnable s)) = add_mset root_t (mset (live (fst r)))"
      using dequeue_heap_root [where q="runnable s" and h="heap s" and key=deadline] ge
            extract_at_live [OF ge, of deadline "heap s"]
      by (simp add: assms(4,5))
    have d2: "status (heap s root_t) = TOBE_REMOVED \<longrightarrow> r = dequeue_heap deadline ?q (heap s)"
      using dequeue_heap_skip [where q="runnable s" and h="heap s" and key=deadline] ge
      by (simp add: assms(4,5))
    have d4: "\<forall>n. snd r = Some n \<longrightarrow>
               status (heap s n) \<noteq> TOBE_REMOVED \<and>
               rt_need_resched s0 =
                 Some (Inr (set_timer (Some n) ?e 0 (enqueue_runnable c (s\<lparr>runnable := fst r\<rparr>)), n)) \<and>
               (qsize (runnable s) \<le> MAX_QUEUE \<longrightarrow>
                  mset (live (runnable (enqueue_runnable c (s\<lparr>runnable := fst r\<rparr>)))) =
                  add_mset c (mset (live (fst r))))"
    proof (intro allI impI conjI)
      fix n
      assume n: "snd r = Some n"
      show "status (heap s n) \<noteq> TOBE_REMOVED"
        using dequeue_heap_snd_not_tobe_removed [of deadline "runnable s" "heap s" n] n
        by (simp add: assms(5))
      show "rt_need_resched s0 =
              Some (Inr (set_timer (Some n) ?e 0 (enqueue_runnable c (s\<lparr>runnable := fst r\<rparr>)), n))"
        using a' n by (simp add: rr preempt_or_keep_unfold assms(5) [symmetric])
      assume "qsize (runnable s) \<le> MAX_QUEUE"
      then have "qsize (fst r) < MAX_QUEUE"
        using qsize_dequeue_heap_less [of "runnable s" deadline "heap s"] a
        by (simp add: assms(5))
      then show "mset (live (runnable (enqueue_runnable c (s\<lparr>runnable := fst r\<rparr>)))) =
                 add_mset c (mset (live (fst r)))"
        using enqueue_runnable_live [of "s\<lparr>runnable := fst r\<rparr>" c] by simp
    qed
    have d5: "snd r = None \<longrightarrow>
               rt_need_resched s0 = Some (Inr (set_timer (Some c) ?e 0 (s\<lparr>runnable := fst r\<rparr>), c)) \<and>
               qsize (fst r) = 0 \<and>
               (\<forall>p\<in>set (live (runnable s)). status (heap s p) = TOBE_REMOVED)"
    proof (intro impI conjI)
      assume n: "snd r = None"
      show "rt_need_resched s0 = Some (Inr (set_timer (Some c) ?e 0 (s\<lparr>runnable := fst r\<rparr>), c))"
        using a' n by (simp add: rr preempt_or_keep_unfold assms(5) [symmetric])
      show "qsize (fst r) = 0"
        using dequeue_heap_none [of deadline "runnable s" "heap s"] n by (simp add: assms(5))
      show "\<forall>p\<in>set (live (runnable s)). status (heap s p) = TOBE_REMOVED"
        using dequeue_heap_none_all [of deadline "runnable s" "heap s"] n by (simp add: assms(5))
    qed
    show ?thesis
      by (rule conjI [OF c0 conjI [OF d1 conjI [OF d2 conjI [OF c3 conjI [OF d4 d5]]]]])
  qed
  have old: "\<exists>s'. rt_need_resched s0 = Some (Inr (s', root_t)) \<and>
                  add_mset root_t (mset (live (runnable s'))) = add_mset c (mset (live (runnable s)))"
    if a: "0 < qsize (runnable s) \<and> deadline (heap s root_t) < deadline (heap s c) \<and>
          status (heap s root_t) \<noteq> TOBE_REMOVED \<and> qsize (runnable s) \<le> MAX_QUEUE"
  proof -
    let ?s' = "set_timer (Some root_t) ?e 0 (enqueue_runnable c (s\<lparr>runnable := fst r\<rparr>))"
    have g: "0 < qsize (runnable s) \<and> deadline (heap s root_t) < deadline (heap s c)"
      using a by simp
    note f = go [OF g]
    have r: "snd r = Some root_t" "mset (live (runnable s)) = add_mset root_t (mset (live (fst r)))"
      using f a by simp_all
    have 1: "rt_need_resched s0 = Some (Inr (?s', root_t))"
      using f r(1) by blast
    have "mset (live (runnable (enqueue_runnable c (s\<lparr>runnable := fst r\<rparr>)))) =
          add_mset c (mset (live (fst r)))"
      using f r(1) a by blast
    then have "mset (live (runnable ?s')) = add_mset c (mset (live (fst r)))"
      by simp
    then have "add_mset root_t (mset (live (runnable ?s'))) = add_mset c (mset (live (runnable s)))"
      using r(2) by simp
    then show ?thesis using 1 by blast
  qed
  show ?thesis
  proof (intro conjI)
    show "0 < qsize (runnable s) \<and> deadline (heap s root_t) < deadline (heap s c) \<and>
          status (heap s root_t) \<noteq> TOBE_REMOVED \<and> qsize (runnable s) \<le> MAX_QUEUE \<longrightarrow>
            (\<exists>s'. rt_need_resched s0 = Some (Inr (s', root_t)) \<and>
                  add_mset root_t (mset (live (runnable s'))) = add_mset c (mset (live (runnable s))))"
      using old by (rule impI)
    show "\<not> (0 < qsize (runnable s) \<and> deadline (heap s root_t) < deadline (heap s c)) \<longrightarrow>
            rt_need_resched s0 = Some (Inr (set_timer (Some c) (resched_end_time s0) 0 s, c)) \<and>
            (\<exists>s'. rt_need_resched s0 = Some (Inr (s', c)) \<and> runnable s' = runnable s)"
      using keep by (rule impI)
  qed (use go in blast)
qed


text \<open>
  The theorem on a reschedule of the periodic thread 1 (deadline 500) with thread 3
  (deadline 30) on runnable; of the sporadic thread 8 (deadline 500) with thread 1
  (deadline 500) on runnable; of thread 1 with thread 2 (deadline 40, to be removed)
  above thread 14 (deadline 600) on runnable, where thread 14 is returned; and of
  thread 8 with thread 2 alone on runnable.
\<close>

theorem preempt_by_earlier_deadline_witness:
  "(\<exists>s'. rt_need_resched (mk_state ex_store [3] [] [9] 1) = Some (Inr (s', 3)) \<and>
         add_mset 3 (mset (live (runnable s'))) = {#1, 3#}) \<and>
   (\<exists>s'. rt_need_resched (mk_state ex_store [1] [] [9] 8) = Some (Inr (s', 8)) \<and>
         live (runnable s') = [1]) \<and>
   (\<exists>s'. rt_need_resched (mk_state ex_store [2, 14] [] [9] 1) = Some (Inr (s', 14))) \<and>
   deadline (ex_store 1) < deadline (ex_store 14) \<and>
   (\<exists>s'. rt_need_resched (mk_state ex_store [2] [] [9] 8) = Some (Inr (s', 8)) \<and>
         qsize (runnable s') = 0)"
proof -
  define A where "A = mk_state ex_store [3] [] [9] 1"
  define B where "B = mk_state ex_store [1] [] [9] 8"
  define C where "C = mk_state ex_store [2, 14] [] [9] 1"
  define D where "D = mk_state ex_store [2] [] [9] 8"
  have A: "heap (resched_entry A) = ex_store" "cur_thread A = 1"
      "qsize (pending (resched_entry A)) = 0" "runnable (resched_entry A) = mk_queue [3]"
    by (simp_all add: A_def resched_entry_def mk_state_def mk_queue_def cur_time_def Let_def)
  have B: "heap (resched_entry B) = ex_store" "cur_thread B = 8"
      "qsize (pending (resched_entry B)) = 0" "runnable (resched_entry B) = mk_queue [1]"
    by (simp_all add: B_def resched_entry_def mk_state_def mk_queue_def cur_time_def Let_def)
  have C: "heap (resched_entry C) = ex_store" "cur_thread C = 1"
      "qsize (pending (resched_entry C)) = 0" "runnable (resched_entry C) = mk_queue [2, 14]"
    by (simp_all add: C_def resched_entry_def mk_state_def mk_queue_def cur_time_def Let_def)
  have D: "heap (resched_entry D) = ex_store" "cur_thread D = 8"
      "qsize (pending (resched_entry D)) = 0" "runnable (resched_entry D) = mk_queue [2]"
    by (simp_all add: D_def resched_entry_def mk_state_def mk_queue_def cur_time_def Let_def)
  have dA: "drain_pending (resched_end_time A) (resched_entry A) = Some (resched_entry A)"
    using A by (simp add: drain_pending_stop)
  have dB: "drain_pending (resched_end_time B) (resched_entry B) = Some (resched_entry B)"
    using B by (simp add: drain_pending_stop)
  have dC: "drain_pending (resched_end_time C) (resched_entry C) = Some (resched_entry C)"
    using C by (simp add: drain_pending_stop)
  have dD: "drain_pending (resched_end_time D) (resched_entry D) = Some (resched_entry D)"
    using D by (simp add: drain_pending_stop)
  have g: "rtype (ex_store 1) = PERIODIC" "run_time (ex_store 1) < slice (constraints (ex_store 1))"
      "deadline (ex_store 3) < deadline (ex_store 1)" "status (ex_store 3) \<noteq> TOBE_REMOVED"
      "rtype (ex_store 8) = SPORADIC" "run_time (ex_store 8) < work (constraints (ex_store 8))"
      "\<not> deadline (ex_store 1) < deadline (ex_store 8)"
      "deadline (ex_store 2) < deadline (ex_store 1)" "deadline (ex_store 2) < deadline (ex_store 8)"
      "deadline (ex_store 1) < deadline (ex_store 14)"
    by (simp_all add: ex_store_def mk_thread_def)
  have q: "threads (mk_queue [3]) 0 = 3" "qsize (mk_queue [3]) = 1" "live (mk_queue [3]) = [3]"
      "threads (mk_queue [1]) 0 = 1" "qsize (mk_queue [1]) = 1" "live (mk_queue [1]) = [1]"
      "threads (mk_queue [2, 14]) 0 = 2" "qsize (mk_queue [2, 14]) = 2"
      "threads (mk_queue [2]) 0 = 2" "qsize (mk_queue [2]) = 1"
    by (simp_all add: mk_queue_def live_def)
  have d: "snd (dequeue_heap deadline (mk_queue [2, 14]) ex_store) = Some 14"
          "snd (dequeue_heap deadline (mk_queue [2]) ex_store) = None"
    by code_simp+
  note a = preempt_by_earlier_deadline [OF dA, of 1 3, OF _ _ _ refl]
  note b = preempt_by_earlier_deadline [OF dB, of 8 1, OF _ _ _ refl]
  note c = preempt_by_earlier_deadline [OF dC, of 1 2, OF _ _ _ refl]
  note e = preempt_by_earlier_deadline [OF dD, of 8 2, OF _ _ _ refl]
  have "\<exists>s'. rt_need_resched A = Some (Inr (s', 3)) \<and>
         add_mset 3 (mset (live (runnable s'))) = {#1, 3#}"
    using a [THEN conjunct2, THEN conjunct1] A g q by (simp add: MAX_QUEUE_def)
  moreover have "\<exists>s'. rt_need_resched B = Some (Inr (s', 8)) \<and> live (runnable s') = [1]"
    using b [THEN conjunct2, THEN conjunct2] B g q by auto
  moreover have "\<exists>s'. rt_need_resched C = Some (Inr (s', 14))"
    using c [THEN conjunct1] C g q d by auto
  moreover have "\<exists>s'. rt_need_resched D = Some (Inr (s', 8)) \<and> qsize (runnable s') = 0"
    using e [THEN conjunct1] D g q d by auto
  ultimately show ?thesis
    unfolding A_def B_def C_def D_def using g(10) by simp
qed

text \<open>
  The claim as the specification states it fails when the root of runnable is to be
  removed. Thread 2 (deadline 40, status ToBeRemoved) is alone on runnable and the
  current thread 1 (deadline 500) has budget left: the dispatcher returns thread 1, and
  runnable is empty afterwards. With thread 14 (deadline 600) below thread 2 on
  runnable, the dispatcher returns thread 14, which is not the root and whose deadline
  is after the deadline of thread 1, and leaves thread 1 on runnable.
\<close>

theorem preempt_by_earlier_deadline_counterexample:
  "rtype (ex_store 1) = PERIODIC \<and> run_time (ex_store 1) < slice (constraints (ex_store 1)) \<and>
   deadline (ex_store 2) < deadline (ex_store 1) \<and>
   live (runnable (mk_state ex_store [2] [] [9] 1)) = [2] \<and>
   (case rt_need_resched (mk_state ex_store [2] [] [9] 1) of
      Some (Inr (s', n)) \<Rightarrow> n = 1 \<and> live (runnable s') = []
    | _ \<Rightarrow> False) \<and>
   deadline (ex_store 1) < deadline (ex_store 14) \<and>
   live (runnable (mk_state ex_store [2, 14] [] [9] 1)) = [2, 14] \<and>
   (case rt_need_resched (mk_state ex_store [2, 14] [] [9] 1) of
      Some (Inr (s', n)) \<Rightarrow> n = 14 \<and> live (runnable s') = [1]
    | _ \<Rightarrow> False)"
  by code_simp

subsection \<open>Admission\<close>

lemma per_util_loop_error: "per_util_loop h ts n i util = Inl e \<Longrightarrow> e = DivByZero"
proof (induction h ts n i util rule: per_util_loop.induct)
  case (1 h ts n i util)
  show ?case
  proof (cases "i < n")
    case False
    then show ?thesis using "1.prems" by (simp add: per_util_loop.simps [of h ts n i util])
  next
    case True
    show ?thesis
    proof (cases "rtype (h (ts i)) = PERIODIC")
      case False
      then show ?thesis
        using "1.IH"(2) [OF True False] "1.prems" True
        by (simp add: per_util_loop.simps [of h ts n i util])
    next
      case p: True
      show ?thesis
      proof (cases "period (constraints (h (ts i))) = 0")
        case True
        then show ?thesis
          using "1.prems" p \<open>i < n\<close> by (simp add: per_util_loop.simps [of h ts n i util])
      next
        case False
        then show ?thesis
          using "1.IH"(1) [OF True p False] "1.prems" True p
          by (simp add: per_util_loop.simps [of h ts n i util])
      qed
    qed
  qed
qed

lemma spor_util_loop_frame:
  "(spor_util_loop ts n i util s = Inl e \<longrightarrow> e = DivByZero) \<and>
   (spor_util_loop ts n i util s = Inr r \<longrightarrow> (\<exists>k. snd r = s\<lparr>reads := k\<rparr>))"
proof (induction ts n i util s rule: spor_util_loop.induct)
  case (1 ts n i util s)
  show ?case
  proof (cases "i < n")
    case False
    have "s = s\<lparr>reads := reads s\<rparr>" by simp
    then have "\<exists>k. s = s\<lparr>reads := k\<rparr>" by (rule exI)
    then show ?thesis
      using False by (auto simp: spor_util_loop.simps [of ts n i util s])
  next
    case True
    show ?thesis
    proof (cases "rtype (heap s (ts i)) = SPORADIC")
      case False
      then show ?thesis
        using "1.IH"(2) [OF True False] True by (simp add: spor_util_loop.simps [of ts n i util s])
    next
      case sp: True
      show ?thesis
      proof (cases "deadline (heap s (ts i)) - fst (cur_time s) = 0")
        case True
        then show ?thesis
          using sp \<open>i < n\<close> by (simp add: spor_util_loop.simps [of ts n i util s])
      next
        case False
        have k: "snd (cur_time s) \<lparr>reads := x\<rparr> = s\<lparr>reads := x\<rparr>" for x
          by (simp add: cur_time_def)
        show ?thesis
          using "1.IH"(1) [OF True sp False] True sp False
          by (simp add: spor_util_loop.simps [of ts n i util s] k)
      qed
    qed
  qed
qed

text \<open>
  C10: \<open>rt_admit\<close> is read-only. It either stops on a division by zero or returns the
  verdict 0 or 1 together with a state that differs from the state on entry at most in
  the number of readings taken from the cycle counter: the seven queues and every
  descriptor are as they were.
\<close>

theorem rt_admit_read_only:
  "case rt_admit thread s of
     Inl e \<Rightarrow> e = DivByZero
   | Inr r \<Rightarrow>
       (fst r = 0 \<or> fst r = 1) \<and> snd r = s\<lparr>reads := reads (snd r)\<rparr> \<and>
       runnable (snd r) = runnable s \<and> pending (snd r) = pending s \<and>
       aperiodic (snd r) = aperiodic s \<and> arrival (snd r) = arrival s \<and>
       waiting (snd r) = waiting s \<and> sleeping (snd r) = sleeping s \<and>
       exited (snd r) = exited s \<and> heap (snd r) = heap s"
proof -
  have f: "(\<exists>k. x = s\<lparr>reads := k\<rparr>) \<Longrightarrow>
       x = s\<lparr>reads := reads x\<rparr> \<and>
       runnable x = runnable s \<and> pending x = pending s \<and>
       aperiodic x = aperiodic s \<and> arrival x = arrival s \<and>
       waiting x = waiting s \<and> sleeping x = sleeping s \<and>
       exited x = exited s \<and> heap x = heap s" for x
    by auto
  show ?thesis
  proof (cases "rtype (heap s thread)")
    case PERIODIC
    have "get_per_util (runnable s) (pending s) (heap s) = Inl e \<Longrightarrow> e = DivByZero" for e
      using per_util_loop_error by (auto simp: get_per_util_def split: sum.splits)
    then show ?thesis
      using PERIODIC by (cases "get_per_util (runnable s) (pending s) (heap s)")
                        (simp_all add: rt_admit_def)
  next
    case SPORADIC
    show ?thesis
    proof (cases "get_spor_util (runnable s) s")
      case (Inl e)
      then show ?thesis
        using SPORADIC spor_util_loop_frame [of "threads (runnable s)" "qsize (runnable s)" 0 0 s e]
        by (simp add: rt_admit_def get_spor_util_def)
    next
      case (Inr r)
      then have "\<exists>k. snd r = s\<lparr>reads := k\<rparr>"
        using spor_util_loop_frame [of "threads (runnable s)" "qsize (runnable s)" 0 0 s _ r]
        by (simp add: get_spor_util_def)
      from f [OF this] show ?thesis
        using SPORADIC Inr by (simp add: rt_admit_def)
    qed
  next
    case APERIODIC
    then show ?thesis by (simp add: rt_admit_def)
  qed
qed

text \<open>The theorem on the sporadic candidate 8, which is denied.\<close>

theorem rt_admit_read_only_witness:
  "case rt_admit 8 (mk_state ex_store [8] [] [9] 1) of
     Inl e \<Rightarrow> False
   | Inr r \<Rightarrow> fst r = 0 \<and> reads (snd r) = 1 \<and> heap (snd r) = ex_store \<and>
              runnable (snd r) = mk_queue [8]"
proof -
  define A where "A = mk_state ex_store [8] [] [9] 1"
  have e: "case rt_admit 8 A of Inl e \<Rightarrow> False | Inr r \<Rightarrow> fst r = 0 \<and> reads (snd r) = 1"
    unfolding A_def by code_simp
  have h: "heap A = ex_store" "runnable A = mk_queue [8]" by (simp_all add: A_def mk_state_def)
  have "case rt_admit 8 A of
     Inl e \<Rightarrow> False
   | Inr r \<Rightarrow> fst r = 0 \<and> reads (snd r) = 1 \<and> heap (snd r) = ex_store \<and>
              runnable (snd r) = mk_queue [8]"
    using rt_admit_read_only [where thread=8 and s=A] e h by (cases "rt_admit 8 A") auto
  then show ?thesis unfolding A_def .
qed

subsection \<open>Admission of a periodic candidate\<close>

lemma per_util_loop_sum:
  "(\<forall>j. i \<le> j \<and> j < n \<and> rtype (h (ts j)) = PERIODIC \<longrightarrow> period (constraints (h (ts j))) \<noteq> 0) \<Longrightarrow>
   per_util_loop h ts n i util =
   Inr (util + sum_list (map (\<lambda>p. scaled_util (h p))
                          (filter (\<lambda>p. rtype (h p) = PERIODIC) (map ts [i..<n]))))"
proof (induction h ts n i util rule: per_util_loop.induct)
  case (1 h ts n i util)
  show ?case
  proof (cases "i < n")
    case False
    then show ?thesis by (simp add: per_util_loop.simps [of h ts n i util])
  next
    case True
    then have u: "[i..<n] = i # [Suc i..<n]" by (rule upt_conv_Cons)
    have rest: "\<forall>j. i + 1 \<le> j \<and> j < n \<and> rtype (h (ts j)) = PERIODIC \<longrightarrow>
                  period (constraints (h (ts j))) \<noteq> 0"
      using "1.prems" by auto
    show ?thesis
    proof (cases "rtype (h (ts i)) = PERIODIC")
      case False
      then show ?thesis
        using "1.IH"(2) [OF True False rest] True
        by (simp add: per_util_loop.simps [of h ts n i util] u)
    next
      case p: True
      then have nz: "period (constraints (h (ts i))) \<noteq> 0" using "1.prems" True by simp
      show ?thesis
        using "1.IH"(1) [OF True p nz rest] True p nz
        by (simp add: per_util_loop.simps [of h ts n i util] u scaled_util_def add.assoc)
    qed
  qed
qed

lemma get_per_util_sum:
  assumes "\<forall>p\<in>set (periodic_members s). period (constraints (heap s p)) \<noteq> 0"
  shows "get_per_util (runnable s) (pending s) (heap s) =
         Inr (sum_list (map (\<lambda>p. scaled_util (heap s p)) (periodic_members s)))"
proof -
  have a: "\<forall>j. 0 \<le> j \<and> j < qsize (runnable s) \<and> rtype (heap s (threads (runnable s) j)) = PERIODIC \<longrightarrow>
             period (constraints (heap s (threads (runnable s) j))) \<noteq> 0"
    using assms by (auto simp: periodic_members_def live_def)
  have b: "\<forall>j. 0 \<le> j \<and> j < qsize (pending s) \<and> rtype (heap s (threads (pending s) j)) = PERIODIC \<longrightarrow>
             period (constraints (heap s (threads (pending s) j))) \<noteq> 0"
    using assms by (auto simp: periodic_members_def live_def)
  have 1: "per_util_loop (heap s) (threads (runnable s)) (qsize (runnable s)) 0 0 =
           Inr (0 + sum_list (map (\<lambda>p. scaled_util (heap s p))
                  (filter (\<lambda>p. rtype (heap s p) = PERIODIC) (live (runnable s)))))"
    unfolding live_def
    using per_util_loop_sum [where h="heap s" and ts="threads (runnable s)" and i=0
            and n="qsize (runnable s)" and util=0, OF a] .
  have 2: "per_util_loop (heap s) (threads (pending s)) (qsize (pending s)) 0 u =
           Inr (u + sum_list (map (\<lambda>p. scaled_util (heap s p))
                  (filter (\<lambda>p. rtype (heap s p) = PERIODIC) (live (pending s)))))" for u
    unfolding live_def
    using per_util_loop_sum [where h="heap s" and ts="threads (pending s)" and i=0
            and n="qsize (pending s)" and util=u, OF b] .
  show ?thesis
    by (simp add: get_per_util_def 1 2 periodic_members_def)
qed

lemma unat_scaled_util:
  "unat (slice (constraints t)) * 100000 < 2 ^ 64 \<Longrightarrow> unat (scaled_util t) = nat_util t"
  by (simp add: scaled_util_def nat_util_def unat_div unat_word_ariths)

lemma unat_sum_list:
  "sum_list (map unat (ws :: u64 list)) < 2 ^ 64 \<Longrightarrow> unat (sum_list ws) = sum_list (map unat ws)"
proof (induction ws)
  case Nil
  then show ?case by simp
next
  case (Cons w ws)
  then have "sum_list (map unat ws) < 2 ^ 64" by simp
  then have "unat (sum_list ws) = sum_list (map unat ws)" by (rule Cons.IH)
  then show ?case using Cons.prems by (simp add: unat_word_ariths)
qed


lemma utilization_less:
  assumes "period (constraints t) \<noteq> 0"
  shows "utilization t * 100000 < real (nat_util t) + 1"
proof -
  define a where "a = unat (slice (constraints t)) * 100000"
  define p where "p = unat (period (constraints t))"
  have p: "0 < p" using assms by (simp add: p_def unat_gt_0)
  have "a < (a div p + 1) * p"
    using p by (metis Suc_eq_plus1 dividend_less_div_times mult.commute mult_Suc)
  then have "real a < (real (a div p) + 1) * real p"
    by (metis of_nat_1 of_nat_add of_nat_less_iff of_nat_mult)
  then have "real a / real p < real (a div p) + 1"
    using p by (simp add: pos_divide_less_eq)
  moreover have "utilization t * 100000 = real a / real p"
    by (simp add: utilization_def a_def p_def)
  ultimately show ?thesis by (simp add: nat_util_def a_def p_def)
qed

lemma utilization_sum:
  "\<forall>p\<in>set ps. period (constraints (h p)) \<noteq> 0 \<Longrightarrow>
   sum_list (map (\<lambda>p. utilization (h p)) ps) * 100000 \<le>
   real (sum_list (map (\<lambda>p. nat_util (h p)) ps)) + real (length ps)"
proof (induction ps)
  case Nil
  then show ?case by simp
next
  case (Cons p ps)
  have "utilization (h p) * 100000 < real (nat_util (h p)) + 1"
    using Cons.prems by (intro utilization_less) simp
  moreover have "sum_list (map (\<lambda>p. utilization (h p)) ps) * 100000 \<le>
                 real (sum_list (map (\<lambda>p. nat_util (h p)) ps)) + real (length ps)"
    using Cons.prems by (intro Cons.IH) simp
  ultimately show ?case by (simp add: algebra_simps)
qed

text \<open>
  C5 (as amended): for a periodic candidate, with no period of 0 among the candidate and
  the periodic members of runnable and pending, \<open>rt_admit\<close> returns 1 if the 64-bit sum
  of the scaled utilizations of the members and of the candidate is at most 65000, and
  0 otherwise, and leaves the state alone. When the candidate is admitted and neither
  a product slice * 100000 nor the sum wraps around, the truncated quotients add up to
  at most 65000, and the utilizations slice / period add up to at most 0.65 plus
  1/100000 for each thread counted.
\<close>

theorem rt_admit_periodic:
  assumes "rtype (heap s thread) = PERIODIC"
    and "\<forall>p\<in>set (thread # periodic_members s). period (constraints (heap s p)) \<noteq> 0"
  shows "rt_admit thread s =
           Inr (if sum_list (map (\<lambda>p. scaled_util (heap s p)) (periodic_members s)) +
                   scaled_util (heap s thread) \<le> PERIODIC_UTIL then 1 else 0, s) \<and>
         (rt_admit thread s = Inr (1, s) \<and>
          (\<forall>p\<in>set (thread # periodic_members s).
              unat (slice (constraints (heap s p))) * 100000 < 2 ^ 64) \<and>
          sum_list (map (\<lambda>p. nat_util (heap s p)) (thread # periodic_members s)) < 2 ^ 64 \<longrightarrow>
            sum_list (map (\<lambda>p. nat_util (heap s p)) (thread # periodic_members s)) \<le> 65000 \<and>
            sum_list (map (\<lambda>p. utilization (heap s p)) (thread # periodic_members s)) \<le>
              (65000 + real (length (thread # periodic_members s))) / 100000)"
proof (intro conjI impI)
  let ?ms = "periodic_members s"
  let ?w = "sum_list (map (\<lambda>p. scaled_util (heap s p)) ?ms) + scaled_util (heap s thread)"
  have g: "get_per_util (runnable s) (pending s) (heap s) =
           Inr (sum_list (map (\<lambda>p. scaled_util (heap s p)) ?ms))"
    using assms(2) by (intro get_per_util_sum) simp
  have nz: "period (constraints (heap s thread)) \<noteq> 0" using assms(2) by simp
  show r: "rt_admit thread s = Inr (if ?w \<le> PERIODIC_UTIL then 1 else 0, s)"
    using assms(1) nz by (simp add: rt_admit_def g scaled_util_def not_less)
  assume a: "rt_admit thread s = Inr (1, s) \<and>
          (\<forall>p\<in>set (thread # ?ms). unat (slice (constraints (heap s p))) * 100000 < 2 ^ 64) \<and>
          sum_list (map (\<lambda>p. nat_util (heap s p)) (thread # ?ms)) < 2 ^ 64"
  have le: "?w \<le> PERIODIC_UTIL" using a r by (auto split: if_splits)
  have m: "map unat (map (\<lambda>p. scaled_util (heap s p)) (thread # ?ms)) =
           map (\<lambda>p. nat_util (heap s p)) (thread # ?ms)"
    using a by (auto simp: unat_scaled_util)
  have "unat (sum_list (map (\<lambda>p. scaled_util (heap s p)) (thread # ?ms))) =
        sum_list (map unat (map (\<lambda>p. scaled_util (heap s p)) (thread # ?ms)))"
    using a unfolding m [symmetric] by (intro unat_sum_list) simp
  then have "unat ?w = sum_list (map (\<lambda>p. nat_util (heap s p)) (thread # ?ms))"
    unfolding m by (simp add: add.commute)
  moreover have "unat ?w \<le> 65000"
    using le by (simp add: word_le_nat_alt PERIODIC_UTIL_def)
  ultimately show n: "sum_list (map (\<lambda>p. nat_util (heap s p)) (thread # ?ms)) \<le> 65000" by simp
  have "sum_list (map (\<lambda>p. utilization (heap s p)) (thread # ?ms)) * 100000 \<le>
        real (sum_list (map (\<lambda>p. nat_util (heap s p)) (thread # ?ms))) + real (length (thread # ?ms))"
    using assms(2) by (intro utilization_sum) simp
  also have "\<dots> \<le> 65000 + real (length (thread # ?ms))"
    using n by simp
  finally show "sum_list (map (\<lambda>p. utilization (heap s p)) (thread # ?ms)) \<le>
              (65000 + real (length (thread # ?ms))) / 100000"
    by (simp add: pos_le_divide_eq)
qed

text \<open>
  The claim as the specification states it fails in its last part: with the periodic
  thread 10 (slice 1, period 100001) on runnable, the candidate 11 (slice 65000, period
  100000) is admitted, and the utilizations of the two add up to more than 0.65.
\<close>

theorem rt_admit_periodic_counterexample:
  "(case rt_admit 11 (mk_state ex_store [10] [] [9] 1) of Inr r \<Rightarrow> fst r = 1 | Inl e \<Rightarrow> False) \<and>
   periodic_members (mk_state ex_store [10] [] [9] 1) = [10] \<and>
   65 / 100 < utilization (ex_store 10) + utilization (ex_store 11)"
proof -
  have "case rt_admit 11 (mk_state ex_store [10] [] [9] 1) of Inr r \<Rightarrow> fst r = 1 | Inl e \<Rightarrow> False"
    by code_simp
  moreover have "periodic_members (mk_state ex_store [10] [] [9] 1) = [10]"
    by code_simp
  moreover have "65 / 100 < utilization (ex_store 10) + utilization (ex_store 11)"
    by (simp add: utilization_def ex_store_def mk_thread_def)
  ultimately show ?thesis by blast
qed


text \<open>
  The theorem on the candidate 12 (slice 80, period 100), which is denied, and on the
  candidate 11 with thread 10 on runnable, which is admitted.
\<close>

theorem rt_admit_periodic_witness:
  "rt_admit 12 (mk_state ex_store [] [] [9] 1) = Inr (0, mk_state ex_store [] [] [9] 1) \<and>
   rt_admit 11 (mk_state ex_store [10] [] [9] 1) = Inr (1, mk_state ex_store [10] [] [9] 1) \<and>
   nat_util (ex_store 11) + nat_util (ex_store 10) \<le> 65000 \<and>
   utilization (ex_store 11) + utilization (ex_store 10) \<le> 65002 / 100000"
proof -
  define A where "A = mk_state ex_store [] [] [9] 1"
  define B where "B = mk_state ex_store [10] [] [9] 1"
  have mA: "periodic_members A = []" unfolding A_def by code_simp
  have mB: "periodic_members B = [10]" unfolding B_def by code_simp
  have h: "heap A = ex_store" "heap B = ex_store" by (simp_all add: A_def B_def mk_state_def)
  have g: "rtype (ex_store 12) = PERIODIC" "period (constraints (ex_store 12)) = 100"
      "slice (constraints (ex_store 12)) = 80"
      "rtype (ex_store 11) = PERIODIC" "period (constraints (ex_store 11)) = 100000"
      "slice (constraints (ex_store 11)) = 65000"
      "period (constraints (ex_store 10)) = 100001" "slice (constraints (ex_store 10)) = 1"
    by (simp_all add: ex_store_def mk_thread_def)
  note a = rt_admit_periodic [of A 12]
  note b = rt_admit_periodic [of B 11]
  have 1: "rt_admit 12 A = Inr (0, A)"
    using a mA h g by (simp add: scaled_util_def PERIODIC_UTIL_def)
  have 2: "rt_admit 11 B = Inr (1, B)"
    using b mB h g by (simp add: scaled_util_def PERIODIC_UTIL_def)
  have 3: "nat_util (ex_store 11) + nat_util (ex_store 10) \<le> 65000 \<and>
           utilization (ex_store 11) + utilization (ex_store 10) \<le> 65002 / 100000"
    using b 2 mB h g by (simp add: nat_util_def)
  show ?thesis
    using 1 2 3 unfolding A_def B_def by blast
qed

subsection \<open>Timer interval\<close>

lemma pick_next_timer:
  "pick_next e sl s = Some (Inr (s', n)) \<Longrightarrow> \<exists>x. s' = set_timer (Some n) e sl x"
  by (auto simp: pick_next_unfold Let_def split: option.splits if_splits)

lemma preempt_or_keep_timer:
  "preempt_or_keep e sl c s = Some (Inr (s', n)) \<Longrightarrow> \<exists>x. s' = set_timer (Some n) e sl x"
  by (auto simp: preempt_or_keep_unfold split: option.splits if_splits)

lemma rt_need_resched_timer:
  assumes "rt_need_resched s0 = Some (Inr (s', n))"
  shows "\<exists>x. s' = set_timer (Some n) (resched_end_time s0) 0 x"
proof -
  obtain s where s: "drain_pending (resched_end_time s0) (resched_entry s0) = Some s"
    using drain_pending_frame [of "resched_end_time s0" "resched_entry s0"] by auto
  have "(\<exists>x. pick_next (resched_end_time s0) 0 x = Some (Inr (s', n))) \<or>
        preempt_or_keep (resched_end_time s0) 0 (cur_thread s0) s = Some (Inr (s', n))"
    using assms s
    by (cases "rtype (heap s (cur_thread s0))")
       (auto simp: rt_need_resched_def Let_def split: if_splits)
  then show ?thesis
    using pick_next_timer preempt_or_keep_timer by blast
qed

lemma set_timer_interval:
  "apic_timer (set_timer (Some n) e 0 s) =
    (if 0 < qsize (pending s)
     then min (deadline (heap s (threads (pending s) 0)) - e) (budget_remaining (heap s n))
     else budget_remaining (heap s n))"
  by (cases "rtype (heap s n)")
     (auto simp: set_timer_def budget_remaining_def cur_time_def Let_def umin_def min_def)

text \<open>
  C6 (as amended): with a slack of zero, the interval \<open>t\<close> that \<open>set_timer\<close> writes to the
  one-shot timer is the remaining budget of the chosen thread when pending is empty, and
  the smaller of the remaining budget and the gap when pending is not empty; so it is at
  most either. Budget and gap are here the 64-bit differences that the source computes:
  slice (or work) minus run time, and the deadline of the root of pending minus the time
  \<open>end_time\<close> that the dispatcher passes in. As numbers, the interval is at most slice
  (or work) minus run time when the run time is not above the slice (or work), and it is
  at most the deadline of the root of pending minus \<open>end_time\<close> when that deadline is
  not before \<open>end_time\<close>. When the deadline is before \<open>end_time\<close>, the gap that the
  source computes is 2^64 minus the time by which the release is late. The thread that
  \<open>rt_need_resched\<close> returns is the one it has called \<open>set_timer\<close> for, with a slack of
  zero and its own \<open>end_time\<close>, as the last step.
\<close>

theorem set_timer_interval_bound:
  assumes "slack = 0"
    and "t = apic_timer (set_timer (Some rt_n) end_time slack s)"
    and "c = heap s rt_n"
    and "near = heap s (threads (pending s) 0)"
  shows "t \<le> (if 0 < qsize (pending s) then min (budget_remaining c) (deadline near - end_time)
               else budget_remaining c) \<and>
         (rtype c = PERIODIC \<and> run_time c \<le> slice (constraints c) \<longrightarrow>
            unat t \<le> unat (slice (constraints c)) - unat (run_time c)) \<and>
         (rtype c = SPORADIC \<and> run_time c \<le> work (constraints c) \<longrightarrow>
            unat t \<le> unat (work (constraints c)) - unat (run_time c)) \<and>
         (rtype c = APERIODIC \<longrightarrow> unat t \<le> 10000000) \<and>
         (0 < qsize (pending s) \<and> end_time \<le> deadline near \<longrightarrow>
            unat t \<le> unat (deadline near) - unat end_time) \<and>
         t = (if 0 < qsize (pending s) then min (deadline near - end_time) (budget_remaining c)
              else budget_remaining c) \<and>
         (deadline near < end_time \<longrightarrow>
            unat (deadline near - end_time) = 2 ^ 64 - (unat end_time - unat (deadline near))) \<and>
         (rt_need_resched s0 = Some (Inr (s', n)) \<longrightarrow>
            (\<exists>x. s' = set_timer (Some n) (resched_end_time s0) 0 x) \<and>
            apic_timer s' =
              (if 0 < qsize (pending s')
               then min (deadline (heap s' (threads (pending s') 0)) - resched_end_time s0)
                        (budget_remaining (heap s' n))
               else budget_remaining (heap s' n)))"
proof -
  have eq: "t = (if 0 < qsize (pending s) then min (deadline near - end_time) (budget_remaining c)
              else budget_remaining c)"
    using set_timer_interval [of rt_n end_time s] by (simp add: assms)
  then have w: "t \<le> (if 0 < qsize (pending s) then min (budget_remaining c) (deadline near - end_time)
               else budget_remaining c)"
    by (simp add: min.commute)
  then have b: "t \<le> budget_remaining c" and g: "0 < qsize (pending s) \<Longrightarrow> t \<le> deadline near - end_time"
    by (auto split: if_splits)
  have sub: "unat x \<le> unat a - unat b" if "x \<le> a - b" "b \<le> a" for x a b :: u64
    using that by (simp add: word_le_nat_alt unat_sub)
  have 1: "rtype c = PERIODIC \<and> run_time c \<le> slice (constraints c) \<longrightarrow>
           unat t \<le> unat (slice (constraints c)) - unat (run_time c)"
    using b by (intro impI sub) (simp_all add: budget_remaining_def)
  have 2: "rtype c = SPORADIC \<and> run_time c \<le> work (constraints c) \<longrightarrow>
           unat t \<le> unat (work (constraints c)) - unat (run_time c)"
    using b by (intro impI sub) (simp_all add: budget_remaining_def)
  have 3: "rtype c = APERIODIC \<longrightarrow> unat t \<le> 10000000"
    using b by (auto simp: budget_remaining_def QUANTUM_def word_le_nat_alt)
  have 4: "0 < qsize (pending s) \<and> end_time \<le> deadline near \<longrightarrow>
           unat t \<le> unat (deadline near) - unat end_time"
    using g by (intro impI sub) simp_all
  have 5: "deadline near < end_time \<longrightarrow>
           unat (deadline near - end_time) = 2 ^ 64 - (unat end_time - unat (deadline near))"
    by (simp add: unat_sub_if' word_less_nat_alt) arith
  have 6: "rt_need_resched s0 = Some (Inr (s', n)) \<longrightarrow>
            (\<exists>x. s' = set_timer (Some n) (resched_end_time s0) 0 x) \<and>
            apic_timer s' =
              (if 0 < qsize (pending s')
               then min (deadline (heap s' (threads (pending s') 0)) - resched_end_time s0)
                        (budget_remaining (heap s' n))
               else budget_remaining (heap s' n))"
  proof
    assume "rt_need_resched s0 = Some (Inr (s', n))"
    then obtain x where x: "s' = set_timer (Some n) (resched_end_time s0) 0 x"
      using rt_need_resched_timer by blast
    have "heap s' = heap x" "pending s' = pending x" by (simp_all add: x)
    then have "apic_timer s' =
              (if 0 < qsize (pending s')
               then min (deadline (heap s' (threads (pending s') 0)) - resched_end_time s0)
                        (budget_remaining (heap s' n))
               else budget_remaining (heap s' n))"
      using set_timer_interval [of n "resched_end_time s0" x] by (simp add: x [symmetric])
    then show "(\<exists>x. s' = set_timer (Some n) (resched_end_time s0) 0 x) \<and>
            apic_timer s' =
              (if 0 < qsize (pending s')
               then min (deadline (heap s' (threads (pending s') 0)) - resched_end_time s0)
                        (budget_remaining (heap s' n))
               else budget_remaining (heap s' n))"
      using x by blast
  qed
  show ?thesis
    by (rule conjI [OF w conjI [OF 1 conjI [OF 2 conjI [OF 3 conjI [OF 4 conjI [OF eq conjI [OF 5 6]]]]]]])
qed

text \<open>
  The theorem on a periodic thread with and without a descriptor on pending, on a
  sporadic thread and on an aperiodic thread, and on the reschedule of thread 1 with
  thread 4 (deadline 80) on pending.
\<close>

theorem set_timer_interval_bound_witness:
  "apic_timer (set_timer (Some 1) 50 0 (mk_state ex_store [] [4] [9] 1)) \<le> 30 \<and>
   unat (apic_timer (set_timer (Some 1) 50 0 (mk_state ex_store [] [4] [9] 1))) \<le> 80 - 50 \<and>
   unat (apic_timer (set_timer (Some 1) 50 0 (mk_state ex_store [] [] [9] 1))) \<le> 100 - 0 \<and>
   unat (apic_timer (set_timer (Some 8) 50 0 (mk_state ex_store [] [] [9] 8))) \<le> 100 - 0 \<and>
   unat (apic_timer (set_timer (Some 9) 50 0 (mk_state ex_store [] [] [9] 9))) \<le> 10000000 \<and>
   (\<exists>s'. rt_need_resched (mk_state ex_store [] [4] [9] 1) = Some (Inr (s', 1)) \<and>
         apic_timer s' = 30)"
proof -
  define A where "A = mk_state ex_store [] [4] [9] 1"
  define B where "B = mk_state ex_store [] [] [9] 1"
  define C where "C = mk_state ex_store [] [] [9] 8"
  define D where "D = mk_state ex_store [] [] [9] 9"
  have A: "heap A = ex_store" "qsize (pending A) = 1" "threads (pending A) 0 = 4"
    by (simp_all add: A_def mk_state_def mk_queue_def)
  have B: "heap B = ex_store" "qsize (pending B) = 0"
    by (simp_all add: B_def mk_state_def mk_queue_def)
  have C: "heap C = ex_store" "qsize (pending C) = 0"
    by (simp_all add: C_def mk_state_def mk_queue_def)
  have D: "heap D = ex_store" "qsize (pending D) = 0"
    by (simp_all add: D_def mk_state_def mk_queue_def)
  have g: "budget_remaining (ex_store 1) = 100" "deadline (ex_store 4) = 80"
      "rtype (ex_store 1) = PERIODIC" "slice (constraints (ex_store 1)) = 100"
      "run_time (ex_store 1) = 0" "rtype (ex_store 8) = SPORADIC"
      "work (constraints (ex_store 8)) = 100" "run_time (ex_store 8) = 0"
      "rtype (ex_store 9) = APERIODIC"
    by (simp_all add: ex_store_def mk_thread_def budget_remaining_def)
  note a = set_timer_interval_bound [OF refl refl refl refl, of 1 50 A A _ 1]
  note b = set_timer_interval_bound [OF refl refl refl refl, of 1 50 B]
  note c = set_timer_interval_bound [OF refl refl refl refl, of 8 50 C]
  note d = set_timer_interval_bound [OF refl refl refl refl, of 9 50 D]
  have 1: "apic_timer (set_timer (Some 1) 50 0 A) \<le> 30"
    using a [THEN conjunct1] A g by simp
  have 2: "unat (apic_timer (set_timer (Some 1) 50 0 A)) \<le> 80 - 50"
    using a [THEN conjunct2, THEN conjunct2, THEN conjunct2, THEN conjunct2, THEN conjunct1] A g
    by simp
  have 3: "unat (apic_timer (set_timer (Some 1) 50 0 B)) \<le> 100 - 0"
    using b [THEN conjunct2, THEN conjunct1] B g by simp
  have 4: "unat (apic_timer (set_timer (Some 8) 50 0 C)) \<le> 100 - 0"
    using c [THEN conjunct2, THEN conjunct2, THEN conjunct1] C g by simp
  have 5: "unat (apic_timer (set_timer (Some 9) 50 0 D)) \<le> 10000000"
    using d [THEN conjunct2, THEN conjunct2, THEN conjunct2, THEN conjunct1] D g by simp
  have "case rt_need_resched A of
          Some (Inr (s', n)) \<Rightarrow>
            n = 1 \<and> qsize (pending s') = 1 \<and>
            deadline (heap s' (threads (pending s') 0)) = 80 \<and>
            budget_remaining (heap s' 1) = 100
        | _ \<Rightarrow> False"
    unfolding A_def by code_simp
  then obtain s' where r: "rt_need_resched A = Some (Inr (s', 1))" "qsize (pending s') = 1"
      "deadline (heap s' (threads (pending s') 0)) = 80" "budget_remaining (heap s' 1) = 100"
    by (auto split: option.splits sum.splits)
  have e: "resched_end_time A = 50"
    by (simp add: A_def resched_end_time_def mk_state_def cur_time_def)
  have "apic_timer s' = 30"
    using a [of s', THEN conjunct2, THEN conjunct2, THEN conjunct2, THEN conjunct2,
             THEN conjunct2, THEN conjunct2, THEN conjunct2] r e
    by simp
  then have 6: "\<exists>s'. rt_need_resched A = Some (Inr (s', 1)) \<and> apic_timer s' = 30"
    using r(1) by blast
  show ?thesis
    using 1 2 3 4 5 6 unfolding A_def B_def C_def D_def by simp
qed

text \<open>
  The claim as the specification states it fails when the release at the root of pending
  is already due. The periodic thread 13 has used up its slice and met its deadline 20;
  the dispatcher, entered at cycle 50, puts it onto pending after the release loop and
  returns the aperiodic thread 9. The timer is set to \<open>QUANTUM\<close>, 10000000 cycles, while
  the deadline of the root of pending is 30 cycles in the past.
\<close>

theorem set_timer_interval_bound_counterexample:
  "resched_end_time (mk_state ex_store [] [] [9] 13) = 50 \<and>
   (case rt_need_resched (mk_state ex_store [] [] [9] 13) of
      Some (Inr (s', n)) \<Rightarrow>
        n = 9 \<and> rtype (heap s' n) = APERIODIC \<and> live (pending s') = [13] \<and>
        deadline (heap s' (threads (pending s') 0)) = 20 \<and> apic_timer s' = 10000000 \<and>
        \<not> int (unat (apic_timer s')) \<le>
            int (unat (deadline (heap s' (threads (pending s') 0)))) -
            int (unat (resched_end_time (mk_state ex_store [] [] [9] 13)))
    | _ \<Rightarrow> False) \<and>
   apic_timer (set_timer (Some 9) 50 0 (mk_state ex_store [] [13] [9] 1)) = 10000000"
  by code_simp

end
